theory Spec2Isabelle
  imports Main "HOL-Library.Sublist" "HOL-Library.AList" "HOL-Library.Char_ord"
    "HOL-Library.List_Lexorder"
begin

unbundle bit_operations_syntax

section \<open>Paths\<close>

text \<open>
  A path is the list of its segments, normalised (no empty, \<open>.\<close> or \<open>..\<close> segment) and
  counted from the root of the file system, so that \<open>path.join\<close> is concatenation,
  \<open>path.dirname\<close> drops the last segment and \<open>path.resolve\<close> returns its argument.
  The walker's starting path \<open>'.'\<close> is the empty list.
\<close>

type_synonym path = "string list"

definition join :: "path \<Rightarrow> path \<Rightarrow> path" where
  "join a b = a @ b"

definition dirname :: "path \<Rightarrow> path" where
  "dirname p = butlast p"

definition resolve :: "path \<Rightarrow> path" where
  "resolve p = p"

section \<open>The file system of the Node.js runtime\<close>

text \<open>
  The module's only I/O boundary is the \<open>fs\<close> module of Node.js. It is modelled as an
  association list from paths to nodes; the root directory \<open>[]\<close> always exists. Symbolic
  links hold an absolute target. They are followed when they are the last segment of a
  path given to \<open>stat\<close>, \<open>existsSync\<close>, \<open>copyFile\<close> or a recursive \<open>mkdir\<close>; a path that
  passes through a symbolic link has no entry in this model.
\<close>

datatype node = File string | Directory | Symlink path

datatype kind = KFile | KDirectory | KSymlink

type_synonym filesystem = "(path \<times> node) list"

datatype error =
    ENOENT | EEXIST | ENOTDIR | EISDIR | ENOTEMPTY | ELOOP | EINVAL
  | TypeError | Thrown string | OutOfFuel

text \<open>
  An awaited call either resolves with a value or rejects with an error; both leave a
  state behind, since nothing is rolled back.
\<close>

datatype ('a, 's) result = Ok 'a 's | Err error 's

fun final :: "('a, 's) result \<Rightarrow> 's" where
  "final (Ok v s) = s"
| "final (Err e s) = s"

fun bind :: "('a, 's) result \<Rightarrow> ('a \<Rightarrow> 's \<Rightarrow> ('b, 's) result) \<Rightarrow> ('b, 's) result" where
  "bind (Ok v s) k = k v s"
| "bind (Err e s) k = Err e s"

definition lookup :: "filesystem \<Rightarrow> path \<Rightarrow> node option" where
  "lookup fs p = (if p = [] then Some Directory else map_of fs p)"

definition put :: "path \<Rightarrow> node \<Rightarrow> filesystem \<Rightarrow> filesystem" where
  "put p n fs = AList.update p n fs"

fun kind_of :: "node \<Rightarrow> kind" where
  "kind_of (File c) = KFile"
| "kind_of Directory = KDirectory"
| "kind_of (Symlink t) = KSymlink"

text \<open>\<open>stat\<close> follows symbolic links, at most 40 of them as Linux does.\<close>

fun follow :: "nat \<Rightarrow> filesystem \<Rightarrow> path \<Rightarrow> error + path \<times> node" where
  "follow 0 fs p = Inl ELOOP"
| "follow (Suc k) fs p =
     (case lookup fs p of
        None \<Rightarrow> Inl ENOENT
      | Some (Symlink t) \<Rightarrow> follow k fs t
      | Some n \<Rightarrow> Inr (p, n))"

definition stat :: "filesystem \<Rightarrow> path \<Rightarrow> error + node" where
  "stat fs p = (case follow 40 fs p of Inl e \<Rightarrow> Inl e | Inr (q, n) \<Rightarrow> Inr n)"

text \<open>
  \<open>lstat\<close> does not follow a link in the last segment. A missing path is \<open>ENOTDIR\<close> when
  one of the segments before the last is a regular file (or a link to one), \<open>ENOENT\<close>
  otherwise. The two are told apart here because the recursive \<open>rmdir\<close> treats them
  differently; the other operations report a missing path as \<open>ENOENT\<close>.
\<close>

fun under_file :: "filesystem \<Rightarrow> path \<Rightarrow> path \<Rightarrow> bool" where
  "under_file fs pre [] = False"
| "under_file fs pre (x # rest) =
     (case stat fs pre of
        Inr (File c) \<Rightarrow> True
      | other \<Rightarrow> under_file fs (pre @ [x]) rest)"

definition lstat :: "filesystem \<Rightarrow> path \<Rightarrow> error + node" where
  "lstat fs p =
     (case lookup fs p of
        None \<Rightarrow> Inl (if under_file fs [] p then ENOTDIR else ENOENT)
      | Some n \<Rightarrow> Inr n)"

definition existsSync :: "filesystem \<Rightarrow> path \<Rightarrow> bool" where
  "existsSync fs p = (case stat fs p of Inl e \<Rightarrow> False | Inr n \<Rightarrow> True)"

definition readlink :: "filesystem \<Rightarrow> path \<Rightarrow> error + path" where
  "readlink fs p =
     (case lookup fs p of
        None \<Rightarrow> Inl ENOENT
      | Some (Symlink t) \<Rightarrow> Inr t
      | Some n \<Rightarrow> Inl EINVAL)"

text \<open>
  \<open>readdir(p, {withFileTypes: true})\<close>: one \<open>Dirent\<close> for each entry of the directory,
  each name once, with the kind the entry has itself (a symbolic link is not a directory).
  The entries come in the order of their names, byte by byte, which is the order of the
  listing that Node.js gets from \<open>scandir\<close> on POSIX systems. The module does not sort, and
  no property below depends on the order; only the call sequences of the sample trees
  show it.
\<close>

record dirent =
  name :: string
  kind :: kind

definition isDirectory :: "dirent \<Rightarrow> bool" where
  "isDirectory d = (kind d = KDirectory)"

definition child_names :: "filesystem \<Rightarrow> path \<Rightarrow> string list" where
  "child_names fs p =
     sort (remdups (map (last \<circ> fst) (filter (\<lambda>(q, n). q \<noteq> [] \<and> butlast q = p) fs)))"

definition entries :: "filesystem \<Rightarrow> path \<Rightarrow> dirent list" where
  "entries fs p =
     List.map_filter
       (\<lambda>x. map_option (\<lambda>n. \<lparr>name = x, kind = kind_of n\<rparr>) (lookup fs (p @ [x])))
       (child_names fs p)"

definition readdir :: "filesystem \<Rightarrow> path \<Rightarrow> error + dirent list" where
  "readdir fs p =
     (case lookup fs p of
        None \<Rightarrow> Inl ENOENT
      | Some Directory \<Rightarrow> Inr (entries fs p)
      | Some n \<Rightarrow> Inl ENOTDIR)"

text \<open>Creating an entry needs its parent to be a directory.\<close>

definition create :: "path \<Rightarrow> node \<Rightarrow> filesystem \<Rightarrow> (unit, filesystem) result" where
  "create p n fs =
     (case lookup fs (dirname p) of
        None \<Rightarrow> Err ENOENT fs
      | Some Directory \<Rightarrow> Ok () (put p n fs)
      | Some m \<Rightarrow> Err ENOTDIR fs)"

text \<open>
  \<open>mkdir(p, {recursive})\<close>. Without \<open>recursive\<close> an existing \<open>p\<close> is \<open>EEXIST\<close> and a missing
  parent \<open>ENOENT\<close>. With it the missing ancestors are made first, and an existing directory
  (or a link to one) is accepted.
\<close>

fun mkdirp :: "path \<Rightarrow> path \<Rightarrow> filesystem \<Rightarrow> (unit, filesystem) result" where
  "mkdirp pre [] fs = Ok () fs"
| "mkdirp pre (x # rest) fs =
     (case lookup fs (pre @ [x]) of
        None \<Rightarrow> mkdirp (pre @ [x]) rest (put (pre @ [x]) Directory fs)
      | Some Directory \<Rightarrow> mkdirp (pre @ [x]) rest fs
      | Some (File c) \<Rightarrow> Err (if rest = [] then EEXIST else ENOTDIR) fs
      | Some (Symlink t) \<Rightarrow>
          (if rest = [] \<and> stat fs (pre @ [x]) = Inr Directory then Ok () fs
           else Err (if rest = [] then EEXIST else ENOTDIR) fs))"

definition mkdir :: "path \<Rightarrow> bool \<Rightarrow> filesystem \<Rightarrow> (unit, filesystem) result" where
  "mkdir p recursive fs =
     (if recursive then mkdirp [] p fs
      else case lookup fs p of
             Some n \<Rightarrow> Err EEXIST fs
           | None \<Rightarrow> create p Directory fs)"

text \<open>
  \<open>copyFile(src, dest, flags)\<close> reads \<open>src\<close> through links. With \<open>COPYFILE_EXCL\<close> any entry
  at \<open>dest\<close> is \<open>EEXIST\<close>; without it \<open>dest\<close> is opened for writing through links, and
  created when missing.
\<close>

fun write_target :: "nat \<Rightarrow> filesystem \<Rightarrow> path \<Rightarrow> error + path" where
  "write_target 0 fs p = Inl ELOOP"
| "write_target (Suc k) fs p =
     (case lookup fs p of
        Some (Symlink t) \<Rightarrow> write_target k fs t
      | other \<Rightarrow> Inr p)"

definition write_file :: "path \<Rightarrow> string \<Rightarrow> filesystem \<Rightarrow> (unit, filesystem) result" where
  "write_file p c fs =
     (case lookup fs p of
        None \<Rightarrow> create p (File c) fs
      | Some (File old) \<Rightarrow> Ok () (put p (File c) fs)
      | Some Directory \<Rightarrow> Err EISDIR fs
      | Some (Symlink t) \<Rightarrow> Err ELOOP fs)"

definition copyFile :: "path \<Rightarrow> path \<Rightarrow> bool \<Rightarrow> filesystem \<Rightarrow> (unit, filesystem) result" where
  "copyFile src dest excl fs =
     (case stat fs src of
        Inl e \<Rightarrow> Err e fs
      | Inr Directory \<Rightarrow> Err EISDIR fs
      | Inr (Symlink t) \<Rightarrow> Err ELOOP fs
      | Inr (File c) \<Rightarrow>
          (if excl then
             (case lookup fs dest of Some n \<Rightarrow> Err EEXIST fs | None \<Rightarrow> create dest (File c) fs)
           else
             (case write_target 40 fs dest of
                Inl e \<Rightarrow> Err e fs
              | Inr q \<Rightarrow> write_file q c fs)))"

text \<open>\<open>symlink(target, p)\<close> of \<open>fs.promises\<close>: never replaces an entry.\<close>

definition symlinkFile :: "path \<Rightarrow> path \<Rightarrow> filesystem \<Rightarrow> (unit, filesystem) result" where
  "symlinkFile target p fs =
     (case lookup fs p of
        Some n \<Rightarrow> Err EEXIST fs
      | None \<Rightarrow> create p (Symlink target) fs)"

text \<open>
  \<open>rmdir(p, {recursive})\<close>. The recursive mode is the one of the Node.js releases that
  brought the option in (12.10 to 15), which the module relies on when it removes files
  and links with it: \<open>lstat\<close> first; \<open>ENOENT\<close> is not reported and nothing is done; any
  other error of \<open>lstat\<close> comes back from the \<open>unlink\<close> that is tried next and rejects
  the call; an entry of any kind is removed with everything below it. From release 16 on
  the same call rejects a missing path with \<open>ENOENT\<close> and a file or a link with
  \<open>ENOTDIR\<close>. Without \<open>recursive\<close> it removes an empty directory only.
\<close>

definition below :: "path \<Rightarrow> path \<times> node \<Rightarrow> bool" where
  "below p e = prefix p (fst e)"

definition rmdir :: "path \<Rightarrow> bool \<Rightarrow> filesystem \<Rightarrow> (unit, filesystem) result" where
  "rmdir p recursive fs =
     (if recursive then
        (case lstat fs p of
           Inl e \<Rightarrow> (if e = ENOENT then Ok () fs else Err e fs)
         | Inr n \<Rightarrow> Ok () (filter (\<lambda>e. \<not> below p e) fs))
      else case lookup fs p of
             None \<Rightarrow> Err ENOENT fs
           | Some Directory \<Rightarrow>
               (if entries fs p = [] then Ok () (filter (\<lambda>e. fst e \<noteq> p) fs)
                else Err ENOTEMPTY fs)
           | Some n \<Rightarrow> Err ENOTDIR fs)"

section \<open>JavaScript values\<close>

text \<open>
  What a walker may return, and what may stand in an argument position of \<open>walk\<close>:
  \<open>needNested !== false\<close> holds for every value but the boolean \<open>false\<close>, and
  \<open>typeof flags === 'function'\<close> tells a function from a number or \<open>undefined\<close>.
\<close>

datatype jsval = JUndefined | JNull | JBool bool | JNumber int | JString string

type_synonym 'u world = "filesystem \<times> 'u"

type_synonym 'u Walker = "path \<Rightarrow> dirent \<Rightarrow> 'u world \<Rightarrow> (jsval, 'u world) result"

datatype 'u jsarg = Undefined | Number int | Function "'u Walker"

fun is_function :: "'u jsarg \<Rightarrow> bool" where
  "is_function (Function f) = True"
| "is_function a = False"

text \<open>Calling a value that is not a function throws a \<open>TypeError\<close>.\<close>

fun call :: "'u jsarg \<Rightarrow> 'u Walker" where
  "call (Function f) p d s = f p d s"
| "call a p d s = Err TypeError s"

text \<open>\<open>a & m\<close>: \<open>undefined\<close> and functions convert to 0.\<close>

fun js_and :: "'u jsarg \<Rightarrow> int \<Rightarrow> int" where
  "js_and (Number n) m = n AND m"
| "js_and a m = 0"

text \<open>A numeric flags argument that may have been left out.\<close>

fun flag_set :: "int option \<Rightarrow> int \<Rightarrow> bool" where
  "flag_set None m = False"
| "flag_set (Some n) m = (n AND m \<noteq> 0)"

definition COPY_EXCL :: int where "COPY_EXCL = 1"

definition COPY_RMNONEXISTENT :: int where "COPY_RMNONEXISTENT = 2"

definition SYMLINK_EXCL :: int where "SYMLINK_EXCL = 4"

definition SYMLINK_RMNONEXISTENT :: int where "SYMLINK_RMNONEXISTENT = 8"

definition WALK_FILEFIRST :: int where "WALK_FILEFIRST = 16"

definition WRITE_EXCL :: int where "WRITE_EXCL = 32"

section \<open>walk\<close>

record 'u WalkOptions =
  root :: path
  flags :: "'u jsarg"
  walker :: "'u jsarg"

text \<open>
  \<open>__walk(path, options)\<close> is \<open>walk_impl\<close>, and the body of its \<open>for\<close> loop over the listing
  is \<open>walk_files\<close>. The walker may change the tree that is being walked, so the recursion
  is bounded by fuel: one unit for each level of nesting.
\<close>

fun walk_impl :: "nat \<Rightarrow> path \<Rightarrow> 'u WalkOptions \<Rightarrow> 'u world \<Rightarrow> (unit, 'u world) result"
  and walk_files ::
    "nat \<Rightarrow> path \<Rightarrow> 'u WalkOptions \<Rightarrow> dirent list \<Rightarrow> 'u world \<Rightarrow> (unit, 'u world) result"
where
  "walk_impl 0 p opts s = Err OutOfFuel s"
| "walk_impl (Suc n) p opts s =
     (case readdir (fst s) (join (root opts) p) of
        Inl e \<Rightarrow> Err e s
      | Inr files \<Rightarrow> walk_files n p opts files s)"
| "walk_files n p opts [] s = Ok () s"
| "walk_files n p opts (file # rest) s =
     (case
        (if isDirectory file then
           (if js_and (flags opts) WALK_FILEFIRST \<noteq> 0 then
              (case walk_impl n (join p [name file]) opts s of
                 Err e s1 \<Rightarrow> Err e s1
               | Ok u s1 \<Rightarrow>
                   (case call (walker opts) (join p [name file]) file s1 of
                      Err e s2 \<Rightarrow> Err e s2
                    | Ok v s2 \<Rightarrow> Ok () s2))
            else
              (case call (walker opts) (join p [name file]) file s of
                 Err e s1 \<Rightarrow> Err e s1
               | Ok needNested s1 \<Rightarrow>
                   (if needNested \<noteq> JBool False then walk_impl n (join p [name file]) opts s1
                    else Ok () s1)))
         else
           (case call (walker opts) (join p [name file]) file s of
              Err e s1 \<Rightarrow> Err e s1
            | Ok v s1 \<Rightarrow> Ok () s1))
      of
        Err e s1 \<Rightarrow> Err e s1
      | Ok u s1 \<Rightarrow> walk_files n p opts rest s1)"

definition walk ::
  "nat \<Rightarrow> path \<Rightarrow> 'u jsarg \<Rightarrow> 'u jsarg \<Rightarrow> 'u world \<Rightarrow> (unit, 'u world) result" where
  "walk n p a2 a3 s =
     (if is_function a2 then walk_impl n [] \<lparr>root = p, flags = a3, walker = a2\<rparr> s
      else walk_impl n [] \<lparr>root = p, flags = a2, walker = a3\<rparr> s)"

section \<open>remove, copy and symlink\<close>

definition remove :: "path \<Rightarrow> filesystem \<Rightarrow> (unit, filesystem) result" where
  "remove p fs = rmdir p True fs"

text \<open>
  The closures of \<open>__copy\<close> and \<open>__symlink\<close> share the local \<open>existentPaths\<close>, which is an
  array when the prune flag is set and \<open>false\<close> otherwise: the second component of the
  world, \<open>Some\<close> of the array or \<open>None\<close>.
\<close>

fun lift :: "'u \<Rightarrow> ('a, filesystem) result \<Rightarrow> ('a, 'u world) result" where
  "lift u (Ok v fs) = Ok v (fs, u)"
| "lift u (Err e fs) = Err e (fs, u)"

fun drop_local :: "('a, 'u world) result \<Rightarrow> ('a, filesystem) result" where
  "drop_local (Ok v s) = Ok v (fst s)"
| "drop_local (Err e s) = Err e (fst s)"

fun push :: "path list option \<Rightarrow> path \<Rightarrow> path list option" where
  "push None p = None"
| "push (Some xs) p = Some (xs @ [p])"

definition copy_walker :: "path \<Rightarrow> path \<Rightarrow> bool \<Rightarrow> path list option Walker" where
  "copy_walker src dest recursive p d s =
     (let destPath = join dest p; existentPaths = push (snd s) destPath in
      bind
        (lift existentPaths
           (if isDirectory d then mkdir destPath recursive (fst s)
            else copyFile (join src p) destPath False (fst s)))
        (\<lambda>u s1. Ok JUndefined s1))"

text \<open>The walker of the second pass, written twice in the source with the same text.\<close>

definition prune_walker :: "path \<Rightarrow> path list option Walker" where
  "prune_walker dest p d s =
     (let destPath = join dest p in
      case snd s of
        None \<Rightarrow> Err TypeError s
      | Some existentPaths \<Rightarrow>
          (if destPath \<notin> set existentPaths then
             bind (lift (snd s) (remove destPath (fst s))) (\<lambda>u s1. Ok (JBool False) s1)
           else Ok JUndefined s))"

definition prune_options :: "path \<Rightarrow> path list option WalkOptions" where
  "prune_options dest =
     \<lparr>root = dest, flags = Undefined, walker = Function (prune_walker dest)\<rparr>"

definition prune :: "nat \<Rightarrow> path \<Rightarrow> path list option world \<Rightarrow> (unit, path list option world) result" where
  "prune n dest s =
     (if snd s \<noteq> None then walk_impl n [] (prune_options dest) s else Ok () s)"

definition copy_primary ::
  "nat \<Rightarrow> path \<Rightarrow> path \<Rightarrow> int option \<Rightarrow> filesystem \<Rightarrow> (unit, path list option world) result" where
  "copy_primary n src dest fl fs =
     (let recursive = \<not> flag_set fl COPY_EXCL;
          existentPaths = (if flag_set fl COPY_RMNONEXISTENT then Some [] else None) in
      bind (lift existentPaths (mkdir dest recursive fs))
        (\<lambda>u s. walk_impl n []
           \<lparr>root = src, flags = Undefined, walker = Function (copy_walker src dest recursive)\<rparr> s))"

definition copy_impl ::
  "nat \<Rightarrow> path \<Rightarrow> path \<Rightarrow> int option \<Rightarrow> filesystem \<Rightarrow> (unit, filesystem) result" where
  "copy_impl n src dest fl fs =
     drop_local (bind (copy_primary n src dest fl fs) (\<lambda>u s. prune n dest s))"

definition copy ::
  "nat \<Rightarrow> path \<Rightarrow> path \<Rightarrow> int option \<Rightarrow> filesystem \<Rightarrow> (unit, filesystem) result" where
  "copy n src dest fl fs =
     (case stat fs src of
        Inl e \<Rightarrow> Err e fs
      | Inr srcStat \<Rightarrow>
          (if srcStat = Directory then copy_impl n src dest fl fs
           else
             bind (if \<not> flag_set fl COPY_EXCL then mkdir (dirname dest) True fs else Ok () fs)
               (\<lambda>u fs1. copyFile src dest (flag_set fl COPY_EXCL) fs1)))"

definition symlinkFile_impl ::
  "path \<Rightarrow> path \<Rightarrow> int option \<Rightarrow> filesystem \<Rightarrow> (unit, filesystem) result" where
  "symlinkFile_impl src dest fl fs =
     (let resolvedSrc = resolve src in
      if flag_set fl SYMLINK_EXCL \<or> \<not> existsSync fs dest then symlinkFile resolvedSrc dest fs
      else case lstat fs dest of
             Inl e \<Rightarrow> Err e fs
           | Inr destStat \<Rightarrow>
               (if kind_of destStat = KSymlink then
                  (case readlink fs dest of
                     Inl e \<Rightarrow> Err e fs
                   | Inr link \<Rightarrow>
                       (if resolvedSrc \<noteq> link then
                          bind (remove dest fs) (\<lambda>u fs1. symlinkFile resolvedSrc dest fs1)
                        else Ok () fs))
                else bind (remove dest fs) (\<lambda>u fs1. symlinkFile resolvedSrc dest fs1)))"

definition symlink_walker :: "path \<Rightarrow> path \<Rightarrow> bool \<Rightarrow> path list option Walker" where
  "symlink_walker src dest recursive p d s =
     (let destPath = join dest p; existentPaths = push (snd s) destPath in
      bind
        (lift existentPaths
           (if isDirectory d then mkdir destPath recursive (fst s)
            else symlinkFile_impl (join src p) destPath None (fst s)))
        (\<lambda>u s1. Ok JUndefined s1))"

definition symlink_primary ::
  "nat \<Rightarrow> path \<Rightarrow> path \<Rightarrow> int option \<Rightarrow> filesystem \<Rightarrow> (unit, path list option world) result" where
  "symlink_primary n src dest fl fs =
     (let recursive = \<not> flag_set fl SYMLINK_EXCL;
          existentPaths = (if flag_set fl SYMLINK_RMNONEXISTENT then Some [] else None) in
      bind (lift existentPaths (mkdir dest recursive fs))
        (\<lambda>u s. walk_impl n []
           \<lparr>root = src, flags = Undefined, walker = Function (symlink_walker src dest recursive)\<rparr> s))"

definition symlink_impl ::
  "nat \<Rightarrow> path \<Rightarrow> path \<Rightarrow> int option \<Rightarrow> filesystem \<Rightarrow> (unit, filesystem) result" where
  "symlink_impl n src dest fl fs =
     drop_local (bind (symlink_primary n src dest fl fs) (\<lambda>u s. prune n dest s))"

definition symlink ::
  "nat \<Rightarrow> path \<Rightarrow> path \<Rightarrow> int option \<Rightarrow> filesystem \<Rightarrow> (unit, filesystem) result" where
  "symlink n src dest fl fs =
     (case stat fs src of
        Inl e \<Rightarrow> Err e fs
      | Inr srcStat \<Rightarrow>
          (if srcStat = Directory then symlink_impl n src dest fl fs
           else
             bind (if \<not> flag_set fl SYMLINK_EXCL then mkdir (dirname dest) True fs else Ok () fs)
               (\<lambda>u fs1. symlinkFile_impl src dest fl fs1)))"

section \<open>Well-formed file systems\<close>

text \<open>Every entry lies in a directory: its parent path is an entry that is a directory.\<close>

definition valid :: "filesystem \<Rightarrow> bool" where
  "valid fs = list_all (\<lambda>e. lookup fs (dirname (fst e)) = Some Directory) fs"

section \<open>Notions for stating the properties\<close>

text \<open>The body of the \<open>for\<close> loop of \<open>__walk\<close> for one entry of the listing.\<close>

definition visit_entry ::
  "nat \<Rightarrow> path \<Rightarrow> 'u WalkOptions \<Rightarrow> dirent \<Rightarrow> 'u world \<Rightarrow> (unit, 'u world) result" where
  "visit_entry n p opts file s =
     (if isDirectory file then
        (if js_and (flags opts) WALK_FILEFIRST \<noteq> 0 then
           bind (walk_impl n (join p [name file]) opts s)
             (\<lambda>u s1. bind (call (walker opts) (join p [name file]) file s1) (\<lambda>v s2. Ok () s2))
         else
           bind (call (walker opts) (join p [name file]) file s)
             (\<lambda>needNested s1.
                if needNested \<noteq> JBool False then walk_impl n (join p [name file]) opts s1
                else Ok () s1))
      else bind (call (walker opts) (join p [name file]) file s) (\<lambda>v s1. Ok () s1))"

text \<open>
  To speak about the calls a walk makes, a walker is wrapped so that it records each of
  its calls: the path and the entry it was given, what it returned (\<open>None\<close> when it
  threw) and the file system it left. The wrapped walker does what the walker does, and
  the walk with it is the same walk (\<open>logged_transparent\<close> below).
\<close>

record visit =
  v_path :: path
  v_entry :: dirent
  v_result :: "jsval option"
  v_after :: filesystem

definition logged :: "'u Walker \<Rightarrow> ('u \<times> visit list) Walker" where
  "logged w p d s =
     (case w p d (fst s, fst (snd s)) of
        Ok r s1 \<Rightarrow>
          Ok r (fst s1, (snd s1, snd (snd s) @
            [\<lparr>v_path = p, v_entry = d, v_result = Some r, v_after = fst s1\<rparr>]))
      | Err e s1 \<Rightarrow>
          Err e (fst s1, (snd s1, snd (snd s) @
            [\<lparr>v_path = p, v_entry = d, v_result = None, v_after = fst s1\<rparr>])))"

definition trace :: "('u \<times> visit list) world \<Rightarrow> visit list" where
  "trace s = snd (snd s)"

text \<open>The options of a walk with its walker wrapped to record the calls, and the way back.\<close>

fun log_arg :: "'u jsarg \<Rightarrow> ('u \<times> visit list) jsarg" where
  "log_arg Undefined = Undefined"
| "log_arg (Number k) = Number k"
| "log_arg (Function f) = Function (logged f)"

definition with_log :: "'u WalkOptions \<Rightarrow> ('u \<times> visit list) WalkOptions" where
  "with_log opts = \<lparr>root = root opts, flags = log_arg (flags opts), walker = log_arg (walker opts)\<rparr>"

definition unlog :: "('u \<times> visit list) world \<Rightarrow> 'u world" where
  "unlog s = (fst s, fst (snd s))"

fun unlogged :: "('a, ('u \<times> visit list) world) result \<Rightarrow> ('a, 'u world) result" where
  "unlogged (Ok v s) = Ok v (unlog s)"
| "unlogged (Err e s) = Err e (unlog s)"

text \<open>The same walker, with its returned value replaced.\<close>

definition returning :: "(jsval \<Rightarrow> jsval) \<Rightarrow> 'u Walker \<Rightarrow> 'u Walker" where
  "returning g w p d s = (case w p d s of Ok v s1 \<Rightarrow> Ok (g v) s1 | Err e s1 \<Rightarrow> Err e s1)"

text \<open>A visit after which a pre-order walk goes into the directory.\<close>

definition descended :: "visit \<Rightarrow> bool" where
  "descended a = (isDirectory (v_entry a) \<and> (\<exists>r. v_result a = Some r \<and> r \<noteq> JBool False))"

text \<open>Shapes of a list of visits: all below a path; only going below a visit that descended.\<close>

definition under :: "path \<Rightarrow> visit list \<Rightarrow> bool" where
  "under p xs = (\<forall>b\<in>set xs. strict_prefix p (v_path b))"

definition pre_tree :: "visit list \<Rightarrow> bool" where
  "pre_tree xs = (\<forall>a\<in>set xs. \<forall>b\<in>set xs. strict_prefix (v_path a) (v_path b) \<longrightarrow> descended a)"

text \<open>
  In post-order no visit is followed by a visit strictly below it; in pre-order no visit
  is preceded by one.
\<close>

definition post_ordered :: "visit list \<Rightarrow> bool" where
  "post_ordered xs = sorted_wrt (\<lambda>a b. \<not> strict_prefix (v_path a) (v_path b)) xs"

definition pre_ordered :: "visit list \<Rightarrow> bool" where
  "pre_ordered xs = sorted_wrt (\<lambda>a b. \<not> strict_prefix (v_path b) (v_path a)) xs"

text \<open>Every entry of a listing has its visit; every visit that descended has its listing visited.\<close>

definition listed :: "path \<Rightarrow> dirent list \<Rightarrow> visit list \<Rightarrow> bool" where
  "listed p fs xs = (\<forall>f\<in>set fs. \<exists>b\<in>set xs. v_path b = p @ [name f] \<and> v_entry b = f)"

definition descents :: "path \<Rightarrow> visit list \<Rightarrow> bool" where
  "descents rt xs =
     (\<forall>a\<in>set xs. descended a \<longrightarrow>
        (\<exists>fs. readdir (v_after a) (join rt (v_path a)) = Inr fs \<and> listed (v_path a) fs xs))"

text \<open>
  The file system after a list of calls made from \<open>fs\<close>. In a post-order walk each visit
  of a directory comes right after a run of visits below it; the directory was listed
  before that run, and every entry of the listing has its visit in the run.
\<close>

definition fs_after :: "filesystem \<Rightarrow> visit list \<Rightarrow> filesystem" where
  "fs_after fs xs = (if xs = [] then fs else v_after (last xs))"

definition post_descents :: "path \<Rightarrow> filesystem \<Rightarrow> visit list \<Rightarrow> bool" where
  "post_descents rt fs xs =
     (\<forall>us a zs. xs = us @ a # zs \<longrightarrow> isDirectory (v_entry a) \<longrightarrow>
        (\<exists>ys vs files. us = ys @ vs \<and> under (v_path a) vs \<and>
           readdir (fs_after fs ys) (join rt (v_path a)) = Inr files \<and>
           listed (v_path a) files vs))"

text \<open>
  What a mirror into \<open>dest\<close> leaves alone: the entries that are not \<open>dest\<close> or below it.
  Below a destination made by an exclusive mirror there is no symbolic link.
\<close>

definition kept_outside :: "path \<Rightarrow> filesystem \<Rightarrow> filesystem \<Rightarrow> bool" where
  "kept_outside dest fs0 fs = (\<forall>q. \<not> prefix dest q \<longrightarrow> lookup fs q = lookup fs0 q)"

definition no_links_below :: "path \<Rightarrow> filesystem \<Rightarrow> bool" where
  "no_links_below dest fs = (\<forall>q t. prefix dest q \<longrightarrow> lookup fs q \<noteq> Some (Symlink t))"

text \<open>
  For the reconciliation pass: a path is stale when it, or a path above it from a given
  point on, is not among the recorded paths.
\<close>

definition stale_via :: "path list \<Rightarrow> path \<Rightarrow> path \<Rightarrow> bool" where
  "stale_via V c q = (\<exists>r. prefix c r \<and> prefix r q \<and> r \<notin> set V)"

definition stale_below :: "path list \<Rightarrow> path \<Rightarrow> path \<Rightarrow> bool" where
  "stale_below V b q = (\<exists>r. strict_prefix b r \<and> prefix r q \<and> r \<notin> set V)"

text \<open>
  A walker records its calls when each call appends its mirrored path to the array. A list
  of paths is closed from a point when, with each path, it holds the paths above it down
  to that point.
\<close>

definition records :: "path \<Rightarrow> path list option Walker \<Rightarrow> bool" where
  "records dest w = (\<forall>q d fs V. snd (final (w q d (fs, Some V))) = Some (V @ [join dest q]))"

definition closed_from :: "path \<Rightarrow> path list \<Rightarrow> bool" where
  "closed_from b ys =
     (\<forall>y\<in>set ys. strict_prefix b y \<and> (\<forall>r. strict_prefix b r \<and> prefix r y \<longrightarrow> r \<in> set ys))"

text \<open>What a call of the second pass's walker looks like, for the recorded paths \<open>V\<close>.\<close>

definition prune_visit :: "path \<Rightarrow> path list \<Rightarrow> visit \<Rightarrow> bool" where
  "prune_visit dest V a =
     (if join dest (v_path a) \<in> set V then v_result a = Some JUndefined
      else v_result a = Some (JBool False) \<and>
           list_all (\<lambda>e. \<not> below (join dest (v_path a)) e) (v_after a))"

text \<open>
  A file is copied in a state of the primary pass: at the mirrored path there is a file
  with the content, and the path is among the recorded ones where paths are recorded.
\<close>

definition copied :: "path \<Rightarrow> path list option world \<Rightarrow> path \<Rightarrow> string \<Rightarrow> bool" where
  "copied dest s r c =
     (lookup (fst s) (dest @ r) = Some (File c) \<and> (\<forall>V. snd s = Some V \<longrightarrow> dest @ r \<in> set V))"

section \<open>A sample tree\<close>

text \<open>
  A tree shaped like the one of the module's tests, \<open>f1\<close>, \<open>p1/p1f1\<close> and \<open>p2/p2f1\<close> under
  \<open>t\<close>, and the walker of the test that leaves \<open>p1\<close> out by returning \<open>false\<close> for it.
\<close>

definition ex_tree :: filesystem where
  "ex_tree = [([''t''], Directory), ([''t'', ''f1''], File ''1''),
     ([''t'', ''p1''], Directory), ([''t'', ''p1'', ''p1f1''], File ''2''),
     ([''t'', ''p2''], Directory), ([''t'', ''p2'', ''p2f1''], File ''3'')]"

definition ex_walker :: "'u Walker" where
  "ex_walker p d s = Ok (if p = [''p1''] then JBool False else JUndefined) s"

definition ex_visit :: "path \<Rightarrow> string \<Rightarrow> kind \<Rightarrow> jsval \<Rightarrow> visit" where
  "ex_visit p x k r =
     \<lparr>v_path = p, v_entry = \<lparr>name = x, kind = k\<rparr>, v_result = Some r, v_after = ex_tree\<rparr>"

text \<open>The sample tree beside a destination \<open>d\<close> that holds a stale directory and an old \<open>f1\<close>.\<close>

definition ex_stale :: filesystem where
  "ex_stale = ex_tree @
     [([''d''], Directory), ([''d'', ''old''], Directory),
      ([''d'', ''old'', ''y''], File ''9''), ([''d'', ''f1''], File ''0'')]"

text \<open>
  The sample mirror after its primary pass: the file system, the recorded paths, and the
  calls of the second pass from there.
\<close>

definition ex_primary :: filesystem where
  "ex_primary = ex_tree @
     [([''d''], Directory), ([''d'', ''old''], Directory),
      ([''d'', ''old'', ''y''], File ''9''), ([''d'', ''f1''], File ''1''),
      ([''d'', ''p1''], Directory), ([''d'', ''p1'', ''p1f1''], File ''2''),
      ([''d'', ''p2''], Directory), ([''d'', ''p2'', ''p2f1''], File ''3'')]"

definition ex_recorded :: "path list" where
  "ex_recorded = [[''d'', ''f1''], [''d'', ''p1''], [''d'', ''p1'', ''p1f1''],
     [''d'', ''p2''], [''d'', ''p2'', ''p2f1'']]"

definition ex_prune_run :: "(unit, (path list option \<times> visit list) world) result" where
  "ex_prune_run = walk_impl 3 [] (with_log (prune_options [''d''])) (ex_primary, Some ex_recorded, [])"

definition ex_prune_log :: "visit list" where
  "ex_prune_log = trace (final ex_prune_run)"

section \<open>Facts about the file system\<close>

lemma lookup_in_set:
  "lookup fs q = Some n \<Longrightarrow> q \<noteq> [] \<Longrightarrow> (q, n) \<in> set fs"
  by (simp add: lookup_def map_of_SomeD)

lemma in_set_lookup:
  "e \<in> set fs \<Longrightarrow> lookup fs (fst e) \<noteq> None"
  by (cases e) (auto simp: lookup_def weak_map_of_SomeI map_of_eq_None_iff image_iff)

lemma valid_parent:
  "valid fs \<Longrightarrow> lookup fs q \<noteq> None \<Longrightarrow> lookup fs (butlast q) = Some Directory"
proof (cases "q = []")
  case True
  then show ?thesis by (simp add: lookup_def)
next
  case False
  assume v: "valid fs" and "lookup fs q \<noteq> None"
  then obtain n where "(q, n) \<in> set fs" using False lookup_in_set by blast
  with v show ?thesis
    by (auto simp: valid_def list_all_iff dirname_def)
qed

lemma valid_absent_below:
  "valid fs \<Longrightarrow> lookup fs p = None \<Longrightarrow> lookup fs (p @ r) = None"
proof (induction r rule: rev_induct)
  case Nil
  then show ?case by simp
next
  case (snoc x r)
  show ?case
  proof (rule ccontr)
    assume "lookup fs (p @ r @ [x]) \<noteq> None"
    with snoc.prems(1) have "lookup fs (butlast (p @ r @ [x])) = Some Directory"
      by (rule valid_parent)
    then have "lookup fs (p @ r) = Some Directory"
      by (simp add: butlast_append)
    with snoc show False by simp
  qed
qed

lemma absent_nothing_below:
  assumes "valid fs" "lookup fs p = None"
  shows "filter (\<lambda>e. \<not> below p e) fs = fs"
proof -
  have "\<not> below p e" if "e \<in> set fs" for e
  proof
    assume "below p e"
    then obtain r where "fst e = p @ r" by (auto simp: below_def prefix_def)
    with assms have "lookup fs (fst e) = None" by (simp add: valid_absent_below)
    with that show False using in_set_lookup by blast
  qed
  then show ?thesis by (simp add: filter_id_conv)
qed

lemma remove_existing:
  "lookup fs p \<noteq> None \<Longrightarrow> remove p fs = Ok () (filter (\<lambda>e. \<not> below p e) fs)"
  by (auto simp: remove_def rmdir_def lstat_def)

lemma remove_cases:
  "remove p fs = Ok () (filter (\<lambda>e. \<not> below p e) fs) \<or>
   lookup fs p = None \<and> (remove p fs = Ok () fs \<or> remove p fs = Err ENOTDIR fs)"
  by (auto simp: remove_def rmdir_def lstat_def split: option.splits)

lemma remove_valid_cases:
  assumes "valid fs"
  shows "remove p fs = Ok () (filter (\<lambda>e. \<not> below p e) fs) \<or> remove p fs = Err ENOTDIR fs"
  using remove_cases [of p fs] absent_nothing_below [OF assms, of p] by auto

lemma remove_final:
  "final (remove p fs) = fs \<or> final (remove p fs) = filter (\<lambda>e. \<not> below p e) fs"
  using remove_cases [of p fs] by auto

lemma lookup_put: "lookup (put p n fs) q = (if q = [] then Some Directory else if q = p then Some n else lookup fs q)"
  by (simp add: lookup_def put_def update_conv')

lemma valid_ancestor:
  "valid fs \<Longrightarrow> lookup fs (p @ r) \<noteq> None \<Longrightarrow> r \<noteq> [] \<Longrightarrow> lookup fs p = Some Directory"
proof (induction r rule: rev_induct)
  case Nil
  then show ?case by simp
next
  case (snoc x r)
  from snoc.prems(1,2) have par: "lookup fs (butlast (p @ r @ [x])) = Some Directory"
    by (rule valid_parent)
  then have "lookup fs (p @ r) = Some Directory" by (simp add: butlast_append)
  then show ?case using snoc by (cases "r = []") auto
qed

lemma mkdirp_existing:
  "valid fs \<Longrightarrow> lookup fs (pre @ rest) = Some Directory \<Longrightarrow> mkdirp pre rest fs = Ok () fs"
proof (induction rest arbitrary: pre)
  case Nil
  then show ?case by simp
next
  case (Cons x rest)
  have "lookup fs (pre @ [x]) = Some Directory"
  proof (cases "rest = []")
    case True
    with Cons.prems show ?thesis by simp
  next
    case False
    with Cons.prems valid_ancestor [of fs "pre @ [x]" rest] show ?thesis by simp
  qed
  with Cons show ?case by simp
qed

lemma mkdirp_frame:
  "\<not> prefix q (pre @ rest) \<Longrightarrow> lookup (final (mkdirp pre rest fs)) q = lookup fs q"
proof (induction rest arbitrary: pre fs)
  case Nil
  then show ?case by simp
next
  case (Cons x rest)
  have nq: "q \<noteq> pre @ [x]" using Cons.prems by (auto simp: prefix_def)
  show ?case using Cons.IH [of "pre @ [x]"] Cons.prems nq
    by (auto simp: lookup_put split: option.splits node.splits)
qed

lemma follow_absent: "lookup fs p = None \<Longrightarrow> follow k fs p = (if k = 0 then Inl ELOOP else Inl ENOENT)"
  by (cases k) auto

lemma existsSync_absent: "lookup fs p = None \<Longrightarrow> \<not> existsSync fs p"
  by (simp add: existsSync_def stat_def follow_absent)

lemma symlinkFile_Ok: "symlinkFile t p fs = Ok u fs' \<Longrightarrow> lookup fs' p = Some (Symlink t)"
  by (auto simp: symlinkFile_def create_def lookup_put split: option.splits node.splits)
     (simp add: lookup_def)

lemma not_prefix_butlast: "p \<noteq> [] \<Longrightarrow> \<not> prefix p (butlast p)"
  by (metis prefix_length_le length_butlast diff_Suc_less length_greater_0_conv not_less One_nat_def)

lemma mkdir_parent_existing:
  assumes "valid fs" "lookup fs dest \<noteq> None"
  shows "mkdir (dirname dest) True fs = Ok () fs"
proof -
  from assms have "lookup fs ([] @ butlast dest) = Some Directory"
    by (simp add: valid_parent)
  with assms(1) have "mkdirp [] (butlast dest) fs = Ok () fs"
    by (rule mkdirp_existing)
  then show ?thesis by (simp add: mkdir_def dirname_def)
qed


lemma stat_bound: "stat fs x = Inr n \<Longrightarrow> lookup fs x \<noteq> None"
  by (auto simp: stat_def numeral_nat split: sum.splits option.splits)

lemma stat_not_directory:
  "stat fs x = Inr (File c) \<Longrightarrow> lookup fs x \<noteq> Some Directory"
  by (auto simp: stat_def numeral_nat split: sum.splits)


section \<open>Facts about the walk\<close>

lemma bind_case: "bind r k = (case r of Ok v s \<Rightarrow> k v s | Err e s \<Rightarrow> Err e s)"
  by (cases r) simp_all

lemma walk_files_Cons:
  "walk_files n p opts (f # rest) s =
     bind (visit_entry n p opts f s) (\<lambda>u s1. walk_files n p opts rest s1)"
  by (simp add: visit_entry_def bind_case)

declare walk_files.simps(2) [simp del]

lemma walk_induct [case_names no_fuel listing no_entries entry]:
  assumes "\<And>p s. P 0 p s"
    and "\<And>n p s. (\<And>fs s'. Q n p fs s') \<Longrightarrow> P (Suc n) p s"
    and "\<And>n p s. Q n p [] s"
    and "\<And>n p f rest s. (\<And>q s'. P n q s') \<Longrightarrow> (\<And>s'. Q n p rest s') \<Longrightarrow> Q n p (f # rest) s"
  shows "P n p s" and "Q n p fs s"
proof -
  have files: "Q n p fs s" if "\<And>q s'. P n q s'" for n p fs s
    using that by (induction fs arbitrary: s) (auto intro: assms)
  have "\<forall>p s. P n p s"
  proof (induction n)
    case 0
    show ?case by (simp add: assms(1))
  next
    case (Suc n)
    then show ?case using files assms(2) by blast
  qed
  then show "P n p s" and "Q n p fs s" using files by blast+
qed

lemma walk_flags_test_only:
  assumes "root o1 = root o2" and "walker o1 = walker o2"
    and "(js_and (flags o1) WALK_FILEFIRST \<noteq> 0) = (js_and (flags o2) WALK_FILEFIRST \<noteq> 0)"
  shows "walk_impl n p o1 s = walk_impl n p o2 s"
    and "walk_files n p o1 fs s = walk_files n p o2 fs s"
proof (induction n p s and n p fs s rule: walk_induct)
  case (no_fuel p s)
  show ?case by simp
next
  case (listing n p s)
  then show ?case using assms by (simp split: sum.splits)
next
  case (no_entries n p s)
  show ?case by simp
next
  case (entry n p f rest s)
  have "visit_entry n p o1 f s = visit_entry n p o2 f s"
    using assms entry(1) by (simp add: visit_entry_def cong: if_cong)
  then show ?case using entry(2) by (simp only: walk_files_Cons)
qed

section \<open>The calls of a pre-order walk\<close>

lemma map_filter_names:
  "map name (List.map_filter (\<lambda>x. map_option (\<lambda>n. \<lparr>name = x, kind = k n\<rparr>) (h x)) xs)
     = filter (\<lambda>x. h x \<noteq> None) xs"
  by (induction xs) (auto simp: List.map_filter_def)

lemma entries_names:
  "map name (entries fs p) = filter (\<lambda>x. lookup fs (p @ [x]) \<noteq> None) (child_names fs p)"
  by (simp add: entries_def map_filter_names)

lemma entries_distinct: "distinct (map name (entries fs p))"
  by (simp add: entries_names child_names_def)

lemma readdir_distinct: "readdir fs p = Inr fs' \<Longrightarrow> distinct (map name fs')"
  by (auto simp: readdir_def entries_distinct split: option.splits node.splits)

lemma final_bind:
  "final (bind r k) = (case r of Ok v s \<Rightarrow> final (k v s) | Err e s \<Rightarrow> s)"
  by (cases r) simp_all

lemma logged_call:
  "\<exists>v. trace (final (call (Function (logged w)) q d s)) = trace s @ [v] \<and>
       v_path v = q \<and> v_entry v = d \<and>
       v_after v = fst (final (call (Function (logged w)) q d s)) \<and>
       v_result v = (case call (Function (logged w)) q d s of Ok r s1 \<Rightarrow> Some r | Err e s1 \<Rightarrow> None)"
  by (auto simp: logged_def trace_def split: result.splits)

lemma same_level: "prefix (p @ [x]) q \<Longrightarrow> prefix (p @ [y]) q \<Longrightarrow> x = y"
  by (auto simp: prefix_def)

lemma pre_tree_append:
  assumes "pre_tree xs" "pre_tree ys"
    and "\<forall>a\<in>set xs. prefix (p @ [x]) (v_path a)"
    and "\<forall>b\<in>set ys. \<exists>y. y \<noteq> x \<and> prefix (p @ [y]) (v_path b)"
  shows "pre_tree (xs @ ys)"
proof -
  have cross: "\<not> prefix (v_path a) (v_path b) \<and> \<not> prefix (v_path b) (v_path a)"
    if "a \<in> set xs" "b \<in> set ys" for a b
  proof -
    from that assms(3) have pa: "prefix (p @ [x]) (v_path a)" by blast
    from that assms(4) obtain y where y: "y \<noteq> x" "prefix (p @ [y]) (v_path b)" by blast
    show ?thesis
    proof (intro conjI notI)
      assume "prefix (v_path a) (v_path b)"
      with pa have "prefix (p @ [x]) (v_path b)" by (rule prefix_order.trans)
      from same_level [OF this y(2)] y(1) show False by simp
    next
      assume "prefix (v_path b) (v_path a)"
      with y(2) have "prefix (p @ [y]) (v_path a)" by (rule prefix_order.trans)
      from same_level [OF pa this] y(1) show False by simp
    qed
  qed
  show ?thesis
    unfolding pre_tree_def
  proof (intro ballI impI)
    fix a b assume a: "a \<in> set (xs @ ys)" and b: "b \<in> set (xs @ ys)"
      and sp: "strict_prefix (v_path a) (v_path b)"
    from sp have pr: "prefix (v_path a) (v_path b)" by (simp add: strict_prefix_def)
    consider "a \<in> set xs" "b \<in> set xs" | "a \<in> set ys" "b \<in> set ys"
      | "a \<in> set xs" "b \<in> set ys" | "a \<in> set ys" "b \<in> set xs"
      using a b by auto
    then show "descended a"
    proof cases
      case 1 with assms(1) sp show ?thesis unfolding pre_tree_def by blast
    next
      case 2 with assms(2) sp show ?thesis unfolding pre_tree_def by blast
    next
      case 3 with cross pr show ?thesis by blast
    next
      case 4 with cross pr show ?thesis by blast
    qed
  qed
qed

lemma pre_tree_single: "pre_tree [v]"
  unfolding pre_tree_def by simp

lemma pre_tree_Cons:
  assumes "pre_tree xs" "under (v_path v) xs" "descended v"
  shows "pre_tree (v # xs)"
  unfolding pre_tree_def
proof (intro ballI impI)
  fix a b assume a: "a \<in> set (v # xs)" and b: "b \<in> set (v # xs)"
    and sp: "strict_prefix (v_path a) (v_path b)"
  show "descended a"
  proof (cases "a = v")
    case True
    with assms(3) show ?thesis by simp
  next
    case False
    with a have ax: "a \<in> set xs" by simp
    show ?thesis
    proof (cases "b = v")
      case True
      from ax assms(2) have "strict_prefix (v_path v) (v_path a)" unfolding under_def by blast
      with sp True show ?thesis by (metis prefix_order.less_asym)
    next
      case False
      with b have "b \<in> set xs" by simp
      with ax sp assms(1) show ?thesis unfolding pre_tree_def by blast
    qed
  qed
qed

lemma visit_entry_pre:
  assumes fl: "js_and (flags opts) WALK_FILEFIRST = 0"
    and w: "walker opts = Function (logged w)"
    and IH: "\<And>q s'. \<exists>xs. trace (final (walk_impl n q opts s')) = trace s' @ xs \<and>
                under q xs \<and> pre_tree xs"
  shows "\<exists>xs. trace (final (visit_entry n p opts f s)) = trace s @ xs \<and>
           (\<forall>b\<in>set xs. prefix (p @ [name f]) (v_path b)) \<and> pre_tree xs"
proof -
  let ?c = "p @ [name f]"
  let ?r = "call (Function (logged w)) ?c f s"
  obtain v where v: "trace (final ?r) = trace s @ [v]" "v_path v = ?c" "v_entry v = f"
    "v_result v = (case ?r of Ok r s1 \<Rightarrow> Some r | Err e s1 \<Rightarrow> None)"
    using logged_call [of w ?c f s] by blast
  show ?thesis
  proof (cases ?r)
    case (Err e s1)
    then have "visit_entry n p opts f s = Err e s1"
      using fl w by (simp add: visit_entry_def join_def)
    with Err v show ?thesis
      by (intro exI [of _ "[v]"]) (simp add: pre_tree_single)
  next
    case (Ok res s1)
    show ?thesis
    proof (cases "isDirectory f \<and> res \<noteq> JBool False")
      case False
      then have "visit_entry n p opts f s = Ok () s1"
        using fl w Ok by (auto simp: visit_entry_def join_def)
      with Ok v show ?thesis
        by (intro exI [of _ "[v]"]) (simp add: pre_tree_single)
    next
      case True
      then have ve: "visit_entry n p opts f s = walk_impl n ?c opts s1"
        using fl w Ok by (simp add: visit_entry_def join_def)
      obtain xs where xs: "trace (final (walk_impl n ?c opts s1)) = trace s1 @ xs"
        "under ?c xs" "pre_tree xs"
        using IH by blast
      have d: "descended v" using True v(3,4) Ok by (simp add: descended_def)
      have "pre_tree (v # xs)"
        using xs(3) xs(2) d v(2) by (intro pre_tree_Cons) simp_all
      moreover have "\<forall>b\<in>set (v # xs). prefix ?c (v_path b)"
        using xs(2) v(2) unfolding under_def by (auto simp: strict_prefix_def)
      moreover have "trace (final (visit_entry n p opts f s)) = trace s @ (v # xs)"
        using ve xs(1) v(1) Ok by simp
      ultimately show ?thesis by blast
    qed
  qed
qed

lemma pre_order_trace:
  assumes fl: "js_and (flags opts) WALK_FILEFIRST = 0"
    and w: "walker opts = Function (logged w)"
  shows "\<exists>xs. trace (final (walk_impl n p opts s)) = trace s @ xs \<and> under p xs \<and> pre_tree xs"
    and "distinct (map name fs) \<longrightarrow>
         (\<exists>xs. trace (final (walk_files n p opts fs s)) = trace s @ xs \<and>
            (\<forall>b\<in>set xs. \<exists>f\<in>set fs. prefix (p @ [name f]) (v_path b)) \<and> pre_tree xs)"
proof (induction n p s and n p fs s rule: walk_induct)
  case (no_fuel p s)
  show ?case by (simp add: under_def pre_tree_def)
next
  case (listing n p s)
  show ?case
  proof (cases "readdir (fst s) (join (root opts) p)")
    case (Inl e)
    then show ?thesis by (simp add: under_def pre_tree_def)
  next
    case (Inr files)
    then have "distinct (map name files)" by (rule readdir_distinct)
    with listing [of files s] obtain xs where
      xs: "trace (final (walk_files n p opts files s)) = trace s @ xs"
        "\<forall>b\<in>set xs. \<exists>f\<in>set files. prefix (p @ [name f]) (v_path b)" "pre_tree xs"
      by blast
    have "under p xs"
      unfolding under_def
    proof
      fix b assume "b \<in> set xs"
      with xs(2) obtain f :: dirent where "prefix (p @ [name f]) (v_path b)" by blast
      then show "strict_prefix p (v_path b)"
        by (auto simp: prefix_def strict_prefix_def)
    qed
    with xs Inr show ?thesis by simp
  qed
next
  case (no_entries n p s)
  show ?case by (simp add: pre_tree_def)
next
  case (entry n p f rest s)
  show ?case
  proof
    assume dist: "distinct (map name (f # rest))"
    obtain xs1 where xs1: "trace (final (visit_entry n p opts f s)) = trace s @ xs1"
      "\<forall>b\<in>set xs1. prefix (p @ [name f]) (v_path b)" "pre_tree xs1"
      using visit_entry_pre [OF fl w entry(1)] by blast
    show "\<exists>xs. trace (final (walk_files n p opts (f # rest) s)) = trace s @ xs \<and>
            (\<forall>b\<in>set xs. \<exists>g\<in>set (f # rest). prefix (p @ [name g]) (v_path b)) \<and> pre_tree xs"
    proof (cases "visit_entry n p opts f s")
      case (Err e s1)
      with xs1 show ?thesis
        by (intro exI [of _ xs1]) (simp add: walk_files_Cons)
    next
      case (Ok u s1)
      from dist entry(2) [of s1] obtain xs2 where
        xs2: "trace (final (walk_files n p opts rest s1)) = trace s1 @ xs2"
          "\<forall>b\<in>set xs2. \<exists>g\<in>set rest. prefix (p @ [name g]) (v_path b)" "pre_tree xs2"
        by auto
      have other: "\<forall>b\<in>set xs2. \<exists>y. y \<noteq> name f \<and> prefix (p @ [y]) (v_path b)"
      proof
        fix b assume "b \<in> set xs2"
        with xs2(2) obtain g where g: "g \<in> set rest" "prefix (p @ [name g]) (v_path b)" by blast
        from g(1) have "name g \<in> name ` set rest" by (rule imageI)
        with dist have "name g \<noteq> name f" by auto
        with g show "\<exists>y. y \<noteq> name f \<and> prefix (p @ [y]) (v_path b)" by blast
      qed
      have "pre_tree (xs1 @ xs2)"
        using xs1(3) xs2(3) xs1(2) other by (rule pre_tree_append)
      moreover have "trace (final (walk_files n p opts (f # rest) s)) = trace s @ (xs1 @ xs2)"
        using Ok xs1(1) xs2(1) by (simp add: walk_files_Cons)
      moreover have "\<forall>b\<in>set (xs1 @ xs2). \<exists>g\<in>set (f # rest). prefix (p @ [name g]) (v_path b)"
        using xs1(2) xs2(2) by auto
      ultimately show ?thesis by blast
    qed
  qed
qed

lemma listed_mono: "listed p fs xs \<Longrightarrow> set xs \<subseteq> set ys \<Longrightarrow> listed p fs ys"
  unfolding listed_def by blast

lemma descents_append:
  assumes "descents rt xs" "descents rt ys"
  shows "descents rt (xs @ ys)"
  unfolding descents_def
proof (intro ballI impI)
  fix a assume a: "a \<in> set (xs @ ys)" and d: "descended a"
  show "\<exists>fs. readdir (v_after a) (join rt (v_path a)) = Inr fs \<and> listed (v_path a) fs (xs @ ys)"
  proof (cases "a \<in> set xs")
    case True
    with assms(1) d obtain fs where "readdir (v_after a) (join rt (v_path a)) = Inr fs"
      "listed (v_path a) fs xs" unfolding descents_def by blast
    then show ?thesis using listed_mono [of "v_path a" fs xs "xs @ ys"] by auto
  next
    case False
    with a have "a \<in> set ys" by simp
    with assms(2) d obtain fs where "readdir (v_after a) (join rt (v_path a)) = Inr fs"
      "listed (v_path a) fs ys" unfolding descents_def by blast
    then show ?thesis using listed_mono [of "v_path a" fs ys "xs @ ys"] by auto
  qed
qed

lemma descents_single: "\<not> descended v \<Longrightarrow> descents rt [v]"
  unfolding descents_def by simp

lemma descents_Cons:
  assumes "descents rt xs" "readdir (v_after v) (join rt (v_path v)) = Inr fs"
    "listed (v_path v) fs xs"
  shows "descents rt (v # xs)"
  unfolding descents_def
proof (intro ballI impI)
  fix a assume a: "a \<in> set (v # xs)" and d: "descended a"
  show "\<exists>fs. readdir (v_after a) (join rt (v_path a)) = Inr fs \<and> listed (v_path a) fs (v # xs)"
  proof (cases "a = v")
    case True
    with assms(2,3) show ?thesis using listed_mono [of "v_path v" fs xs "v # xs"] by auto
  next
    case False
    with a have "a \<in> set xs" by simp
    with assms(1) d obtain fs' where "readdir (v_after a) (join rt (v_path a)) = Inr fs'"
      "listed (v_path a) fs' xs" unfolding descents_def by blast
    then show ?thesis using listed_mono [of "v_path a" fs' xs "v # xs"] by auto
  qed
qed

lemma visit_entry_complete:
  assumes fl: "js_and (flags opts) WALK_FILEFIRST = 0"
    and w: "walker opts = Function (logged w)"
    and IH: "\<And>q s1 u s'. walk_impl n q opts s1 = Ok u s' \<Longrightarrow>
               \<exists>xs fs. trace s' = trace s1 @ xs \<and>
                 readdir (fst s1) (join (root opts) q) = Inr fs \<and> listed q fs xs \<and>
                 descents (root opts) xs"
    and ok: "visit_entry n p opts f s = Ok u s'"
  shows "\<exists>xs. trace s' = trace s @ xs \<and> listed p [f] xs \<and> descents (root opts) xs"
proof -
  let ?c = "p @ [name f]"
  let ?r = "call (Function (logged w)) ?c f s"
  obtain v where v: "trace (final ?r) = trace s @ [v]" "v_path v = ?c" "v_entry v = f"
    "v_after v = fst (final ?r)"
    "v_result v = (case ?r of Ok r s1 \<Rightarrow> Some r | Err e s1 \<Rightarrow> None)"
    using logged_call [of w ?c f s] by blast
  show ?thesis
  proof (cases ?r)
    case (Err e s1)
    then have "visit_entry n p opts f s = Err e s1"
      using fl w by (simp add: visit_entry_def join_def)
    with ok show ?thesis by simp
  next
    case (Ok res s1)
    show ?thesis
    proof (cases "isDirectory f \<and> res \<noteq> JBool False")
      case False
      then have "visit_entry n p opts f s = Ok () s1"
        using fl w Ok by (auto simp: visit_entry_def join_def)
      with ok have s': "s' = s1" by simp
      have "\<not> descended v" using False v(3,5) Ok by (auto simp: descended_def)
      then have "descents (root opts) [v]" by (rule descents_single)
      moreover have "listed p [f] [v]" using v(2,3) by (simp add: listed_def)
      moreover have "trace s' = trace s @ [v]" using s' v(1) Ok by simp
      ultimately show ?thesis by blast
    next
      case True
      then have "visit_entry n p opts f s = walk_impl n ?c opts s1"
        using fl w Ok by (simp add: visit_entry_def join_def)
      with ok have "walk_impl n ?c opts s1 = Ok u s'" by simp
      from IH [OF this] obtain xs fs where xs: "trace s' = trace s1 @ xs"
        "readdir (fst s1) (join (root opts) ?c) = Inr fs" "listed ?c fs xs"
        "descents (root opts) xs" by blast
      have "readdir (v_after v) (join (root opts) (v_path v)) = Inr fs"
        using xs(2) v(2,4) Ok by simp
      moreover have "listed (v_path v) fs xs" using xs(3) v(2) by simp
      ultimately have "descents (root opts) (v # xs)"
        using xs(4) by (intro descents_Cons)
      moreover have "listed p [f] (v # xs)" using v(2,3) by (simp add: listed_def)
      moreover have "trace s' = trace s @ (v # xs)" using xs(1) v(1) Ok by simp
      ultimately show ?thesis by blast
    qed
  qed
qed

lemma listed_Cons:
  "listed p [f] xs \<Longrightarrow> listed p rest ys \<Longrightarrow> listed p (f # rest) (xs @ ys)"
  unfolding listed_def by auto

lemma pre_order_complete:
  assumes fl: "js_and (flags opts) WALK_FILEFIRST = 0"
    and w: "walker opts = Function (logged w)"
  shows "\<forall>u s'. walk_impl n p opts s = Ok u s' \<longrightarrow>
           (\<exists>xs fs. trace s' = trace s @ xs \<and>
              readdir (fst s) (join (root opts) p) = Inr fs \<and> listed p fs xs \<and>
              descents (root opts) xs)"
    and "\<forall>u s'. walk_files n p opts fs s = Ok u s' \<longrightarrow>
           (\<exists>xs. trace s' = trace s @ xs \<and> listed p fs xs \<and> descents (root opts) xs)"
proof (induction n p s and n p fs s rule: walk_induct)
  case (no_fuel p s)
  show ?case by simp
next
  case (listing n p s)
  show ?case
  proof (intro allI impI)
    fix u s' assume ok: "walk_impl (Suc n) p opts s = Ok u s'"
    then obtain files where files: "readdir (fst s) (join (root opts) p) = Inr files"
      by (cases "readdir (fst s) (join (root opts) p)") auto
    with ok have "walk_files n p opts files s = Ok u s'" by simp
    with listing [of files s] obtain xs where "trace s' = trace s @ xs" "listed p files xs"
      "descents (root opts) xs" by blast
    with files show "\<exists>xs fs. trace s' = trace s @ xs \<and>
        readdir (fst s) (join (root opts) p) = Inr fs \<and> listed p fs xs \<and> descents (root opts) xs"
      by blast
  qed
next
  case (no_entries n p s)
  show ?case by (simp add: listed_def descents_def)
next
  case (entry n p f rest s)
  show ?case
  proof (intro allI impI)
    fix u s' assume ok: "walk_files n p opts (f # rest) s = Ok u s'"
    then obtain u1 s1 where s1: "visit_entry n p opts f s = Ok u1 s1"
      "walk_files n p opts rest s1 = Ok u s'"
      by (cases "visit_entry n p opts f s") (auto simp: walk_files_Cons)
    have IH1: "\<And>q s1 u s'. walk_impl n q opts s1 = Ok u s' \<Longrightarrow>
               \<exists>xs fs. trace s' = trace s1 @ xs \<and>
                 readdir (fst s1) (join (root opts) q) = Inr fs \<and> listed q fs xs \<and>
                 descents (root opts) xs"
      using entry(1) by blast
    have "\<exists>xs. trace s1 = trace s @ xs \<and> listed p [f] xs \<and> descents (root opts) xs"
      by (rule visit_entry_complete [OF fl w _ s1(1)]) (rule IH1)
    then obtain xs1 where
      xs1: "trace s1 = trace s @ xs1" "listed p [f] xs1" "descents (root opts) xs1" by blast
    from entry(2) [of s1] s1(2) obtain xs2 where
      xs2: "trace s' = trace s1 @ xs2" "listed p rest xs2" "descents (root opts) xs2" by blast
    have "trace s' = trace s @ (xs1 @ xs2)" using xs1(1) xs2(1) by simp
    moreover have "listed p (f # rest) (xs1 @ xs2)" using xs1(2) xs2(2) by (rule listed_Cons)
    moreover have "descents (root opts) (xs1 @ xs2)" using xs1(3) xs2(3) by (rule descents_append)
    ultimately show "\<exists>xs. trace s' = trace s @ xs \<and> listed p (f # rest) xs \<and>
        descents (root opts) xs" by blast
  qed
qed

lemma visit_entry_resolved:
  assumes w: "walker opts = Function (logged w)"
    and IH: "\<And>q s1 u s'. walk_impl n q opts s1 = Ok u s' \<Longrightarrow>
               \<exists>xs. trace s' = trace s1 @ xs \<and> (\<forall>a\<in>set xs. v_result a \<noteq> None)"
    and ok: "visit_entry n p opts f s = Ok u s'"
  shows "\<exists>xs. trace s' = trace s @ xs \<and> (\<forall>a\<in>set xs. v_result a \<noteq> None)"
proof -
  let ?c = "join p [name f]"
  have call_ok: "\<exists>v. trace s2 = trace s1 @ [v] \<and> v_result v \<noteq> None"
    if "call (walker opts) ?c f s1 = Ok r s2" for s1 r s2
    using logged_call [of w ?c f s1] that w by auto
  show ?thesis
  proof (cases "isDirectory f")
    case False
    with ok obtain r where "call (walker opts) ?c f s = Ok r s'"
      by (cases "call (walker opts) ?c f s") (auto simp: visit_entry_def)
    from call_ok [OF this] show ?thesis by auto
  next
    case True
    show ?thesis
    proof (cases "js_and (flags opts) WALK_FILEFIRST \<noteq> 0")
      case ff: True
      from True ff ok obtain u1 s1 where a: "walk_impl n ?c opts s = Ok u1 s1"
        by (cases "walk_impl n ?c opts s") (auto simp: visit_entry_def)
      with True ff ok obtain r where b: "call (walker opts) ?c f s1 = Ok r s'"
        by (cases "call (walker opts) ?c f s1") (auto simp: visit_entry_def)
      from IH [OF a] obtain xs where xs: "trace s1 = trace s @ xs" "\<forall>a\<in>set xs. v_result a \<noteq> None"
        by blast
      from call_ok [OF b] obtain v where v: "trace s' = trace s1 @ [v]" "v_result v \<noteq> None" by blast
      from xs v show ?thesis by (intro exI [of _ "xs @ [v]"]) auto
    next
      case nf: False
      from True nf ok obtain r s1 where a: "call (walker opts) ?c f s = Ok r s1"
        by (cases "call (walker opts) ?c f s") (auto simp: visit_entry_def)
      from call_ok [OF a] obtain v where v: "trace s1 = trace s @ [v]" "v_result v \<noteq> None" by blast
      show ?thesis
      proof (cases "r \<noteq> JBool False")
        case True
        with \<open>isDirectory f\<close> nf ok a have "walk_impl n ?c opts s1 = Ok u s'"
          by (simp add: visit_entry_def)
        from IH [OF this] obtain xs where xs: "trace s' = trace s1 @ xs"
          "\<forall>a\<in>set xs. v_result a \<noteq> None" by blast
        with v show ?thesis by (intro exI [of _ "v # xs"]) auto
      next
        case False
        with \<open>isDirectory f\<close> nf ok a have "s' = s1" by (simp add: visit_entry_def)
        with v show ?thesis by (intro exI [of _ "[v]"]) auto
      qed
    qed
  qed
qed

lemma resolved_calls:
  assumes w: "walker opts = Function (logged w)"
  shows "\<forall>u s'. walk_impl n p opts s = Ok u s' \<longrightarrow>
           (\<exists>xs. trace s' = trace s @ xs \<and> (\<forall>a\<in>set xs. v_result a \<noteq> None))"
    and "\<forall>u s'. walk_files n p opts fs s = Ok u s' \<longrightarrow>
           (\<exists>xs. trace s' = trace s @ xs \<and> (\<forall>a\<in>set xs. v_result a \<noteq> None))"
proof (induction n p s and n p fs s rule: walk_induct)
  case (no_fuel p s)
  show ?case by simp
next
  case (listing n p s)
  then show ?case by (auto split: sum.splits)
next
  case (no_entries n p s)
  show ?case by simp
next
  case (entry n p f rest s)
  show ?case
  proof (intro allI impI)
    fix u s' assume ok: "walk_files n p opts (f # rest) s = Ok u s'"
    then obtain u1 s1 where s1: "visit_entry n p opts f s = Ok u1 s1"
      "walk_files n p opts rest s1 = Ok u s'"
      by (cases "visit_entry n p opts f s") (auto simp: walk_files_Cons)
    have IH1: "\<And>q s1 u s'. walk_impl n q opts s1 = Ok u s' \<Longrightarrow>
               \<exists>xs. trace s' = trace s1 @ xs \<and> (\<forall>a\<in>set xs. v_result a \<noteq> None)"
      using entry(1) by blast
    have "\<exists>xs. trace s1 = trace s @ xs \<and> (\<forall>a\<in>set xs. v_result a \<noteq> None)"
      by (rule visit_entry_resolved [OF w _ s1(1)]) (rule IH1)
    then obtain xs1 where xs1: "trace s1 = trace s @ xs1" "\<forall>a\<in>set xs1. v_result a \<noteq> None" by blast
    from entry(2) [of s1] s1(2) obtain xs2 where
      xs2: "trace s' = trace s1 @ xs2" "\<forall>a\<in>set xs2. v_result a \<noteq> None" by blast
    from xs1 xs2 show "\<exists>xs. trace s' = trace s @ xs \<and> (\<forall>a\<in>set xs. v_result a \<noteq> None)"
      by (intro exI [of _ "xs1 @ xs2"]) auto
  qed
qed

lemma pre_ordered_append:
  assumes "pre_ordered xs" "pre_ordered ys"
    and "\<forall>a\<in>set xs. prefix (p @ [x]) (v_path a)"
    and "\<forall>b\<in>set ys. \<exists>y. y \<noteq> x \<and> prefix (p @ [y]) (v_path b)"
  shows "pre_ordered (xs @ ys)"
proof -
  have "\<not> strict_prefix (v_path b) (v_path a)" if "a \<in> set xs" "b \<in> set ys" for a b
  proof
    assume "strict_prefix (v_path b) (v_path a)"
    then have pr: "prefix (v_path b) (v_path a)" by (simp add: strict_prefix_def)
    from that assms(4) obtain y where y: "y \<noteq> x" "prefix (p @ [y]) (v_path b)" by blast
    from y(2) pr have py: "prefix (p @ [y]) (v_path a)" using prefix_order.trans by blast
    from that assms(3) have "prefix (p @ [x]) (v_path a)" by blast
    from same_level [OF this py] y(1) show False by simp
  qed
  with assms(1,2) show ?thesis
    unfolding pre_ordered_def by (simp add: sorted_wrt_append)
qed

lemma pre_ordered_Cons:
  assumes "pre_ordered xs" "under (v_path v) xs"
  shows "pre_ordered (v # xs)"
proof -
  have "\<not> strict_prefix (v_path a) (v_path v)" if "a \<in> set xs" for a
  proof
    assume "strict_prefix (v_path a) (v_path v)"
    moreover from that assms(2) have "strict_prefix (v_path v) (v_path a)"
      unfolding under_def by blast
    ultimately show False by (metis prefix_order.less_asym)
  qed
  with assms(1) show ?thesis
    unfolding pre_ordered_def by simp
qed

lemma visit_entry_pre_ordered:
  assumes fl: "js_and (flags opts) WALK_FILEFIRST = 0"
    and w: "walker opts = Function (logged w)"
    and IH: "\<And>q s'. \<exists>xs. trace (final (walk_impl n q opts s')) = trace s' @ xs \<and>
                under q xs \<and> pre_ordered xs"
  shows "\<exists>xs. trace (final (visit_entry n p opts f s)) = trace s @ xs \<and>
           (\<forall>b\<in>set xs. prefix (p @ [name f]) (v_path b)) \<and> pre_ordered xs"
proof -
  let ?c = "p @ [name f]"
  let ?r = "call (Function (logged w)) ?c f s"
  obtain v where v: "trace (final ?r) = trace s @ [v]" "v_path v = ?c"
    using logged_call [of w ?c f s] by blast
  have one: "pre_ordered [v]" by (simp add: pre_ordered_def)
  show ?thesis
  proof (cases ?r)
    case (Err e s1)
    then have "visit_entry n p opts f s = Err e s1"
      using fl w by (simp add: visit_entry_def join_def)
    with Err v one show ?thesis
      by (intro exI [of _ "[v]"]) simp
  next
    case (Ok res s1)
    show ?thesis
    proof (cases "isDirectory f \<and> res \<noteq> JBool False")
      case False
      then have "visit_entry n p opts f s = Ok () s1"
        using fl w Ok by (auto simp: visit_entry_def join_def)
      with Ok v one show ?thesis
        by (intro exI [of _ "[v]"]) simp
    next
      case True
      then have ve: "visit_entry n p opts f s = walk_impl n ?c opts s1"
        using fl w Ok by (simp add: visit_entry_def join_def)
      obtain xs where xs: "trace (final (walk_impl n ?c opts s1)) = trace s1 @ xs"
        "under ?c xs" "pre_ordered xs"
        using IH by blast
      have "pre_ordered (v # xs)"
        using xs(3) xs(2) v(2) by (intro pre_ordered_Cons) simp_all
      moreover have "\<forall>b\<in>set (v # xs). prefix ?c (v_path b)"
        using xs(2) v(2) unfolding under_def by (auto simp: strict_prefix_def)
      moreover have "trace (final (visit_entry n p opts f s)) = trace s @ (v # xs)"
        using ve xs(1) v(1) Ok by simp
      ultimately show ?thesis by blast
    qed
  qed
qed

lemma pre_order_sorted:
  assumes fl: "js_and (flags opts) WALK_FILEFIRST = 0"
    and w: "walker opts = Function (logged w)"
  shows "\<exists>xs. trace (final (walk_impl n p opts s)) = trace s @ xs \<and> under p xs \<and> pre_ordered xs"
    and "distinct (map name fs) \<longrightarrow>
         (\<exists>xs. trace (final (walk_files n p opts fs s)) = trace s @ xs \<and>
            (\<forall>b\<in>set xs. \<exists>f\<in>set fs. prefix (p @ [name f]) (v_path b)) \<and> pre_ordered xs)"
proof (induction n p s and n p fs s rule: walk_induct)
  case (no_fuel p s)
  show ?case by (simp add: under_def pre_ordered_def)
next
  case (listing n p s)
  show ?case
  proof (cases "readdir (fst s) (join (root opts) p)")
    case (Inl e)
    then show ?thesis by (simp add: under_def pre_ordered_def)
  next
    case (Inr files)
    then have "distinct (map name files)" by (rule readdir_distinct)
    with listing [of files s] obtain xs where
      xs: "trace (final (walk_files n p opts files s)) = trace s @ xs"
        "\<forall>b\<in>set xs. \<exists>f\<in>set files. prefix (p @ [name f]) (v_path b)" "pre_ordered xs"
      by blast
    have "under p xs"
      unfolding under_def
    proof
      fix b assume "b \<in> set xs"
      with xs(2) obtain f :: dirent where "prefix (p @ [name f]) (v_path b)" by blast
      then show "strict_prefix p (v_path b)"
        by (auto simp: prefix_def strict_prefix_def)
    qed
    with xs Inr show ?thesis by simp
  qed
next
  case (no_entries n p s)
  show ?case by (simp add: pre_ordered_def)
next
  case (entry n p f rest s)
  show ?case
  proof
    assume dist: "distinct (map name (f # rest))"
    obtain xs1 where xs1: "trace (final (visit_entry n p opts f s)) = trace s @ xs1"
      "\<forall>b\<in>set xs1. prefix (p @ [name f]) (v_path b)" "pre_ordered xs1"
      using visit_entry_pre_ordered [OF fl w entry(1)] by blast
    show "\<exists>xs. trace (final (walk_files n p opts (f # rest) s)) = trace s @ xs \<and>
            (\<forall>b\<in>set xs. \<exists>g\<in>set (f # rest). prefix (p @ [name g]) (v_path b)) \<and> pre_ordered xs"
    proof (cases "visit_entry n p opts f s")
      case (Err e s1)
      with xs1 show ?thesis
        by (intro exI [of _ xs1]) (simp add: walk_files_Cons)
    next
      case (Ok u s1)
      from dist entry(2) [of s1] obtain xs2 where
        xs2: "trace (final (walk_files n p opts rest s1)) = trace s1 @ xs2"
          "\<forall>b\<in>set xs2. \<exists>g\<in>set rest. prefix (p @ [name g]) (v_path b)" "pre_ordered xs2"
        by auto
      have other: "\<forall>b\<in>set xs2. \<exists>y. y \<noteq> name f \<and> prefix (p @ [y]) (v_path b)"
      proof
        fix b assume "b \<in> set xs2"
        with xs2(2) obtain g where g: "g \<in> set rest" "prefix (p @ [name g]) (v_path b)" by blast
        from g(1) have "name g \<in> name ` set rest" by (rule imageI)
        with dist have "name g \<noteq> name f" by auto
        with g show "\<exists>y. y \<noteq> name f \<and> prefix (p @ [y]) (v_path b)" by blast
      qed
      have "pre_ordered (xs1 @ xs2)"
        using xs1(3) xs2(3) xs1(2) other by (rule pre_ordered_append)
      moreover have "trace (final (walk_files n p opts (f # rest) s)) = trace s @ (xs1 @ xs2)"
        using Ok xs1(1) xs2(1) by (simp add: walk_files_Cons)
      moreover have "\<forall>b\<in>set (xs1 @ xs2). \<exists>g\<in>set (f # rest). prefix (p @ [name g]) (v_path b)"
        using xs1(2) xs2(2) by auto
      ultimately show ?thesis by blast
    qed
  qed
qed

section \<open>The calls of a post-order walk\<close>

lemma post_ordered_append:
  assumes "post_ordered xs" "post_ordered ys"
    and "\<forall>a\<in>set xs. prefix (p @ [x]) (v_path a)"
    and "\<forall>b\<in>set ys. \<exists>y. y \<noteq> x \<and> prefix (p @ [y]) (v_path b)"
  shows "post_ordered (xs @ ys)"
proof -
  have "\<not> strict_prefix (v_path a) (v_path b)" if "a \<in> set xs" "b \<in> set ys" for a b
  proof
    assume "strict_prefix (v_path a) (v_path b)"
    then have pr: "prefix (v_path a) (v_path b)" by (simp add: strict_prefix_def)
    from that assms(3) have "prefix (p @ [x]) (v_path a)" by blast
    with pr have px: "prefix (p @ [x]) (v_path b)" using prefix_order.trans by blast
    from that assms(4) obtain y where y: "y \<noteq> x" "prefix (p @ [y]) (v_path b)" by blast
    from same_level [OF px y(2)] y(1) show False by simp
  qed
  with assms(1,2) show ?thesis
    unfolding post_ordered_def by (simp add: sorted_wrt_append)
qed

lemma post_ordered_snoc:
  assumes "post_ordered xs" "under (v_path v) xs"
  shows "post_ordered (xs @ [v])"
proof -
  have "\<not> strict_prefix (v_path a) (v_path v)" if "a \<in> set xs" for a
  proof
    assume "strict_prefix (v_path a) (v_path v)"
    moreover from that assms(2) have "strict_prefix (v_path v) (v_path a)"
      unfolding under_def by blast
    ultimately show False by (metis prefix_order.less_asym)
  qed
  with assms(1) show ?thesis
    unfolding post_ordered_def by (simp add: sorted_wrt_append)
qed

lemma visit_entry_post:
  assumes fl: "js_and (flags opts) WALK_FILEFIRST \<noteq> 0"
    and w: "walker opts = Function (logged w)"
    and IH: "\<And>q s'. \<exists>xs. trace (final (walk_impl n q opts s')) = trace s' @ xs \<and>
                under q xs \<and> post_ordered xs"
  shows "\<exists>xs. trace (final (visit_entry n p opts f s)) = trace s @ xs \<and>
           (\<forall>b\<in>set xs. prefix (p @ [name f]) (v_path b)) \<and> post_ordered xs"
proof -
  let ?c = "p @ [name f]"
  show ?thesis
  proof (cases "isDirectory f")
    case False
    let ?r = "call (Function (logged w)) ?c f s"
    obtain v where v: "trace (final ?r) = trace s @ [v]" "v_path v = ?c"
      using logged_call [of w ?c f s] by blast
    have "final (visit_entry n p opts f s) = final ?r"
      using False w by (cases ?r) (simp_all add: visit_entry_def join_def)
    with v show ?thesis
      by (intro exI [of _ "[v]"]) (simp add: post_ordered_def)
  next
    case True
    obtain xs where xs: "trace (final (walk_impl n ?c opts s)) = trace s @ xs"
      "under ?c xs" "post_ordered xs"
      using IH by blast
    have below: "\<forall>b\<in>set xs. prefix ?c (v_path b)"
      using xs(2) unfolding under_def by (auto simp: strict_prefix_def)
    show ?thesis
    proof (cases "walk_impl n ?c opts s")
      case (Err e s1)
      then have "visit_entry n p opts f s = Err e s1"
        using True fl by (simp add: visit_entry_def join_def)
      with Err xs below show ?thesis by (intro exI [of _ xs]) simp
    next
      case (Ok u s1)
      let ?r = "call (Function (logged w)) ?c f s1"
      obtain v where v: "trace (final ?r) = trace s1 @ [v]" "v_path v = ?c"
        using logged_call [of w ?c f s1] by blast
      have "final (visit_entry n p opts f s) = final ?r"
        using True fl w Ok by (cases ?r) (simp_all add: visit_entry_def join_def)
      then have "trace (final (visit_entry n p opts f s)) = trace s @ (xs @ [v])"
        using v(1) xs(1) Ok by simp
      moreover have "post_ordered (xs @ [v])"
        using xs(3) xs(2) v(2) by (intro post_ordered_snoc) simp_all
      moreover have "\<forall>b\<in>set (xs @ [v]). prefix ?c (v_path b)"
        using below v(2) by simp
      ultimately show ?thesis by blast
    qed
  qed
qed

lemma post_order_trace:
  assumes fl: "js_and (flags opts) WALK_FILEFIRST \<noteq> 0"
    and w: "walker opts = Function (logged w)"
  shows "\<exists>xs. trace (final (walk_impl n p opts s)) = trace s @ xs \<and> under p xs \<and> post_ordered xs"
    and "distinct (map name fs) \<longrightarrow>
         (\<exists>xs. trace (final (walk_files n p opts fs s)) = trace s @ xs \<and>
            (\<forall>b\<in>set xs. \<exists>f\<in>set fs. prefix (p @ [name f]) (v_path b)) \<and> post_ordered xs)"
proof (induction n p s and n p fs s rule: walk_induct)
  case (no_fuel p s)
  show ?case by (simp add: under_def post_ordered_def)
next
  case (listing n p s)
  show ?case
  proof (cases "readdir (fst s) (join (root opts) p)")
    case (Inl e)
    then show ?thesis by (simp add: under_def post_ordered_def)
  next
    case (Inr files)
    then have "distinct (map name files)" by (rule readdir_distinct)
    with listing [of files s] obtain xs where
      xs: "trace (final (walk_files n p opts files s)) = trace s @ xs"
        "\<forall>b\<in>set xs. \<exists>f\<in>set files. prefix (p @ [name f]) (v_path b)" "post_ordered xs"
      by blast
    have "under p xs"
      unfolding under_def
    proof
      fix b assume "b \<in> set xs"
      with xs(2) obtain f :: dirent where "prefix (p @ [name f]) (v_path b)" by blast
      then show "strict_prefix p (v_path b)"
        by (auto simp: prefix_def strict_prefix_def)
    qed
    with xs Inr show ?thesis by simp
  qed
next
  case (no_entries n p s)
  show ?case by (simp add: post_ordered_def)
next
  case (entry n p f rest s)
  show ?case
  proof
    assume dist: "distinct (map name (f # rest))"
    obtain xs1 where xs1: "trace (final (visit_entry n p opts f s)) = trace s @ xs1"
      "\<forall>b\<in>set xs1. prefix (p @ [name f]) (v_path b)" "post_ordered xs1"
      using visit_entry_post [OF fl w entry(1)] by blast
    show "\<exists>xs. trace (final (walk_files n p opts (f # rest) s)) = trace s @ xs \<and>
            (\<forall>b\<in>set xs. \<exists>g\<in>set (f # rest). prefix (p @ [name g]) (v_path b)) \<and> post_ordered xs"
    proof (cases "visit_entry n p opts f s")
      case (Err e s1)
      with xs1 show ?thesis
        by (intro exI [of _ xs1]) (simp add: walk_files_Cons)
    next
      case (Ok u s1)
      from dist entry(2) [of s1] obtain xs2 where
        xs2: "trace (final (walk_files n p opts rest s1)) = trace s1 @ xs2"
          "\<forall>b\<in>set xs2. \<exists>g\<in>set rest. prefix (p @ [name g]) (v_path b)" "post_ordered xs2"
        by auto
      have other: "\<forall>b\<in>set xs2. \<exists>y. y \<noteq> name f \<and> prefix (p @ [y]) (v_path b)"
      proof
        fix b assume "b \<in> set xs2"
        with xs2(2) obtain g where g: "g \<in> set rest" "prefix (p @ [name g]) (v_path b)" by blast
        from g(1) have "name g \<in> name ` set rest" by (rule imageI)
        with dist have "name g \<noteq> name f" by auto
        with g show "\<exists>y. y \<noteq> name f \<and> prefix (p @ [y]) (v_path b)" by blast
      qed
      have "post_ordered (xs1 @ xs2)"
        using xs1(3) xs2(3) xs1(2) other by (rule post_ordered_append)
      moreover have "trace (final (walk_files n p opts (f # rest) s)) = trace s @ (xs1 @ xs2)"
        using Ok xs1(1) xs2(1) by (simp add: walk_files_Cons)
      moreover have "\<forall>b\<in>set (xs1 @ xs2). \<exists>g\<in>set (f # rest). prefix (p @ [name g]) (v_path b)"
        using xs1(2) xs2(2) by auto
      ultimately show ?thesis by blast
    qed
  qed
qed

lemma returning_call:
  "bind (call (Function (returning g w)) q d s) (\<lambda>v s2. Ok () s2) =
   bind (call (Function w) q d s) (\<lambda>v s2. Ok () s2)"
  by (cases "w q d s") (simp_all add: returning_def)

lemma post_order_result_unused:
  assumes "js_and fl WALK_FILEFIRST \<noteq> 0"
  shows "walk_impl n p \<lparr>root = rt, flags = fl, walker = Function (returning g w)\<rparr> s =
         walk_impl n p \<lparr>root = rt, flags = fl, walker = Function w\<rparr> s"
    and "walk_files n p \<lparr>root = rt, flags = fl, walker = Function (returning g w)\<rparr> fs s =
         walk_files n p \<lparr>root = rt, flags = fl, walker = Function w\<rparr> fs s"
proof (induction n p s and n p fs s rule: walk_induct)
  case (no_fuel p s)
  show ?case by simp
next
  case (listing n p s)
  then show ?case by (simp split: sum.splits)
next
  case (no_entries n p s)
  show ?case by simp
next
  case (entry n p f rest s)
  have "visit_entry n p \<lparr>root = rt, flags = fl, walker = Function (returning g w)\<rparr> f s =
        visit_entry n p \<lparr>root = rt, flags = fl, walker = Function w\<rparr> f s"
    using assms entry(1) by (simp add: visit_entry_def returning_call del: call.simps)
  then show ?case using entry(2) by (simp only: walk_files_Cons)
qed

lemma fs_after_append: "fs_after fs (xs @ ys) = fs_after (fs_after fs xs) ys"
  by (simp add: fs_after_def)

lemma post_descents_Nil: "post_descents rt fs []"
  by (simp add: post_descents_def)

lemma post_descents_append:
  assumes "post_descents rt fs xs" "post_descents rt (fs_after fs xs) ys"
  shows "post_descents rt fs (xs @ ys)"
  unfolding post_descents_def
proof (intro allI impI)
  fix us a zs assume eq: "xs @ ys = us @ a # zs" and d: "isDirectory (v_entry a)"
  from eq consider w where "xs = us @ w" "w @ ys = a # zs" | w where "xs @ w = us" "ys = w @ a # zs"
    by (auto simp: append_eq_append_conv2)
  then consider w where "xs = us @ a # w" | w where "us = xs @ w" "ys = w @ a # zs"
  proof cases
    case (1 w)
    then show ?thesis using that by (cases w) auto
  next
    case (2 w)
    then show ?thesis using that by auto
  qed
  then show "\<exists>ys vs files. us = ys @ vs \<and> under (v_path a) vs \<and>
           readdir (fs_after fs ys) (join rt (v_path a)) = Inr files \<and>
           listed (v_path a) files vs"
  proof cases
    case 1
    with assms(1) d show ?thesis unfolding post_descents_def by blast
  next
    case 2
    with assms(2) d obtain ys' vs files where *: "w = ys' @ vs" "under (v_path a) vs"
      "readdir (fs_after (fs_after fs xs) ys') (join rt (v_path a)) = Inr files"
      "listed (v_path a) files vs"
      unfolding post_descents_def by blast
    from *(1) 2(1) have "us = (xs @ ys') @ vs" by simp
    moreover from *(3) have "readdir (fs_after fs (xs @ ys')) (join rt (v_path a)) = Inr files"
      by (simp add: fs_after_append)
    ultimately show ?thesis using *(2,4) by blast
  qed
qed

lemma post_descents_file: "\<not> isDirectory (v_entry v) \<Longrightarrow> post_descents rt fs [v]"
  by (auto simp: post_descents_def Cons_eq_append_conv)

lemma post_descents_snoc:
  assumes "post_descents rt fs xs" "under (v_path v) xs"
    "readdir fs (join rt (v_path v)) = Inr files" "listed (v_path v) files xs"
  shows "post_descents rt fs (xs @ [v])"
  unfolding post_descents_def
proof (intro allI impI)
  fix us a zs assume eq: "xs @ [v] = us @ a # zs" and d: "isDirectory (v_entry a)"
  from eq consider w where "xs = us @ w" "w @ [v] = a # zs" | w where "xs @ w = us" "[v] = w @ a # zs"
    by (auto simp: append_eq_append_conv2)
  then consider w where "xs = us @ a # w" | "us = xs" "a = v"
  proof cases
    case (1 w)
    then show ?thesis using that by (cases w) auto
  next
    case (2 w)
    then show ?thesis using that by (cases w) auto
  qed
  then show "\<exists>ys vs files. us = ys @ vs \<and> under (v_path a) vs \<and>
           readdir (fs_after fs ys) (join rt (v_path a)) = Inr files \<and>
           listed (v_path a) files vs"
  proof cases
    case 1
    with assms(1) d show ?thesis unfolding post_descents_def by blast
  next
    case 2
    have "us = [] @ xs" using 2 by simp
    moreover have "readdir (fs_after fs []) (join rt (v_path a)) = Inr files"
      using assms(3) 2 by (simp add: fs_after_def)
    ultimately show ?thesis using assms(2,4) 2 by blast
  qed
qed

lemma visit_entry_post_complete:
  assumes fl: "js_and (flags opts) WALK_FILEFIRST \<noteq> 0"
    and w: "walker opts = Function (logged w)"
    and IH: "\<And>q s1. \<exists>xs. trace (final (walk_impl n q opts s1)) = trace s1 @ xs \<and> under q xs \<and>
                fst (final (walk_impl n q opts s1)) = fs_after (fst s1) xs \<and>
                post_descents (root opts) (fst s1) xs \<and>
                (\<forall>u s'. walk_impl n q opts s1 = Ok u s' \<longrightarrow>
                   (\<exists>files. readdir (fst s1) (join (root opts) q) = Inr files \<and> listed q files xs))"
  shows "\<exists>xs. trace (final (visit_entry n p opts f s)) = trace s @ xs \<and>
           (\<forall>b\<in>set xs. prefix (p @ [name f]) (v_path b)) \<and>
           fst (final (visit_entry n p opts f s)) = fs_after (fst s) xs \<and>
           post_descents (root opts) (fst s) xs \<and>
           (\<forall>u s'. visit_entry n p opts f s = Ok u s' \<longrightarrow> listed p [f] xs)"
proof -
  let ?c = "p @ [name f]"
  show ?thesis
  proof (cases "isDirectory f")
    case False
    let ?r = "call (Function (logged w)) ?c f s"
    obtain v where v: "trace (final ?r) = trace s @ [v]" "v_path v = ?c" "v_entry v = f"
      "v_after v = fst (final ?r)"
      using logged_call [of w ?c f s] by blast
    have fin: "final (visit_entry n p opts f s) = final ?r"
      using False w by (cases ?r) (simp_all add: visit_entry_def join_def)
    have "post_descents (root opts) (fst s) [v]" using False v(3) by (simp add: post_descents_file)
    moreover have "listed p [f] [v]" using v(2,3) by (simp add: listed_def)
    moreover have "fst (final (visit_entry n p opts f s)) = fs_after (fst s) [v]"
      using fin v(4) by (simp add: fs_after_def)
    ultimately show ?thesis using fin v(1,2)
      by (intro exI [of _ "[v]"]) simp
  next
    case True
    obtain xs where xs: "trace (final (walk_impl n ?c opts s)) = trace s @ xs"
      "under ?c xs" "fst (final (walk_impl n ?c opts s)) = fs_after (fst s) xs"
      "post_descents (root opts) (fst s) xs"
      "\<forall>u s'. walk_impl n ?c opts s = Ok u s' \<longrightarrow>
         (\<exists>files. readdir (fst s) (join (root opts) ?c) = Inr files \<and> listed ?c files xs)"
      using IH [of ?c s] by blast
    have below: "\<forall>b\<in>set xs. prefix ?c (v_path b)"
      using xs(2) unfolding under_def by (auto simp: strict_prefix_def)
    show ?thesis
    proof (cases "walk_impl n ?c opts s")
      case (Err e s1)
      then have "visit_entry n p opts f s = Err e s1"
        using True fl by (simp add: visit_entry_def join_def)
      with Err xs below show ?thesis by (intro exI [of _ xs]) simp
    next
      case (Ok u s1)
      let ?r = "call (Function (logged w)) ?c f s1"
      obtain v where v: "trace (final ?r) = trace s1 @ [v]" "v_path v = ?c" "v_entry v = f"
        "v_after v = fst (final ?r)"
        using logged_call [of w ?c f s1] by blast
      from xs(5) Ok obtain files where files: "readdir (fst s) (join (root opts) ?c) = Inr files"
        "listed ?c files xs" by blast
      have fin: "final (visit_entry n p opts f s) = final ?r"
        using True fl w Ok by (cases ?r) (simp_all add: visit_entry_def join_def)
      then have "trace (final (visit_entry n p opts f s)) = trace s @ (xs @ [v])"
        using v(1) xs(1) Ok by simp
      moreover have "post_descents (root opts) (fst s) (xs @ [v])"
        using xs(4) xs(2) files v(2) by (intro post_descents_snoc) simp_all
      moreover have "\<forall>b\<in>set (xs @ [v]). prefix ?c (v_path b)"
        using below v(2) by simp
      moreover have "fst (final (visit_entry n p opts f s)) = fs_after (fst s) (xs @ [v])"
        using fin v(4) by (simp add: fs_after_def)
      moreover have "listed p [f] (xs @ [v])" using v(2,3) by (simp add: listed_def)
      ultimately show ?thesis by blast
    qed
  qed
qed

lemma post_order_complete:
  assumes fl: "js_and (flags opts) WALK_FILEFIRST \<noteq> 0"
    and w: "walker opts = Function (logged w)"
  shows "\<exists>xs. trace (final (walk_impl n p opts s)) = trace s @ xs \<and> under p xs \<and>
           fst (final (walk_impl n p opts s)) = fs_after (fst s) xs \<and>
           post_descents (root opts) (fst s) xs \<and>
           (\<forall>u s'. walk_impl n p opts s = Ok u s' \<longrightarrow>
              (\<exists>files. readdir (fst s) (join (root opts) p) = Inr files \<and> listed p files xs))"
    and "\<exists>xs. trace (final (walk_files n p opts fs s)) = trace s @ xs \<and>
           (\<forall>b\<in>set xs. \<exists>f\<in>set fs. prefix (p @ [name f]) (v_path b)) \<and>
           fst (final (walk_files n p opts fs s)) = fs_after (fst s) xs \<and>
           post_descents (root opts) (fst s) xs \<and>
           (\<forall>u s'. walk_files n p opts fs s = Ok u s' \<longrightarrow> listed p fs xs)"
proof (induction n p s and n p fs s rule: walk_induct)
  case (no_fuel p s)
  show ?case by (simp add: under_def fs_after_def post_descents_Nil)
next
  case (listing n p s)
  show ?case
  proof (cases "readdir (fst s) (join (root opts) p)")
    case (Inl e)
    then show ?thesis by (simp add: under_def fs_after_def post_descents_Nil)
  next
    case (Inr files)
    from listing [of files s] obtain xs where
      xs: "trace (final (walk_files n p opts files s)) = trace s @ xs"
        "\<forall>b\<in>set xs. \<exists>f\<in>set files. prefix (p @ [name f]) (v_path b)"
        "fst (final (walk_files n p opts files s)) = fs_after (fst s) xs"
        "post_descents (root opts) (fst s) xs"
        "\<forall>u s'. walk_files n p opts files s = Ok u s' \<longrightarrow> listed p files xs"
      by blast
    have "under p xs"
      unfolding under_def
    proof
      fix b assume "b \<in> set xs"
      with xs(2) obtain f :: dirent where "prefix (p @ [name f]) (v_path b)" by blast
      then show "strict_prefix p (v_path b)"
        by (auto simp: prefix_def strict_prefix_def)
    qed
    with xs Inr show ?thesis by (intro exI [of _ xs]) simp
  qed
next
  case (no_entries n p s)
  show ?case by (simp add: fs_after_def post_descents_Nil listed_def)
next
  case (entry n p f rest s)
  obtain xs1 where xs1: "trace (final (visit_entry n p opts f s)) = trace s @ xs1"
    "\<forall>b\<in>set xs1. prefix (p @ [name f]) (v_path b)"
    "fst (final (visit_entry n p opts f s)) = fs_after (fst s) xs1"
    "post_descents (root opts) (fst s) xs1"
    "\<forall>u s'. visit_entry n p opts f s = Ok u s' \<longrightarrow> listed p [f] xs1"
    using visit_entry_post_complete [OF fl w entry(1)] by blast
  show ?case
  proof (cases "visit_entry n p opts f s")
    case (Err e s1)
    with xs1 show ?thesis
      by (intro exI [of _ xs1]) (simp add: walk_files_Cons)
  next
    case (Ok u s1)
    from entry(2) [of s1] obtain xs2 where
      xs2: "trace (final (walk_files n p opts rest s1)) = trace s1 @ xs2"
        "\<forall>b\<in>set xs2. \<exists>g\<in>set rest. prefix (p @ [name g]) (v_path b)"
        "fst (final (walk_files n p opts rest s1)) = fs_after (fst s1) xs2"
        "post_descents (root opts) (fst s1) xs2"
        "\<forall>u s'. walk_files n p opts rest s1 = Ok u s' \<longrightarrow> listed p rest xs2"
      by blast
    from Ok xs1(3) have s1: "fst s1 = fs_after (fst s) xs1" by simp
    have "post_descents (root opts) (fst s) (xs1 @ xs2)"
      using xs1(4) xs2(4) s1 by (intro post_descents_append) simp_all
    moreover have "trace (final (walk_files n p opts (f # rest) s)) = trace s @ (xs1 @ xs2)"
      using Ok xs1(1) xs2(1) by (simp add: walk_files_Cons)
    moreover have "\<forall>b\<in>set (xs1 @ xs2). \<exists>g\<in>set (f # rest). prefix (p @ [name g]) (v_path b)"
      using xs1(2) xs2(2) by auto
    moreover have "fst (final (walk_files n p opts (f # rest) s)) = fs_after (fst s) (xs1 @ xs2)"
      using Ok xs2(3) s1 by (simp add: walk_files_Cons fs_after_append)
    moreover have "\<forall>u s'. walk_files n p opts (f # rest) s = Ok u s' \<longrightarrow> listed p (f # rest) (xs1 @ xs2)"
    proof (intro allI impI)
      fix u' s' assume "walk_files n p opts (f # rest) s = Ok u' s'"
      with Ok have "walk_files n p opts rest s1 = Ok u' s'" by (simp add: walk_files_Cons)
      with xs2(5) have "listed p rest xs2" by blast
      moreover from Ok xs1(5) have "listed p [f] xs1" by blast
      ultimately show "listed p (f # rest) (xs1 @ xs2)" by (rule listed_Cons [rotated])
    qed
    ultimately show ?thesis by blast
  qed
qed

section \<open>Well-formedness is kept\<close>

lemma valid_iff:
  "valid fs \<longleftrightarrow> (\<forall>q. lookup fs q \<noteq> None \<longrightarrow> lookup fs (butlast q) = Some Directory)"
proof
  assume "valid fs"
  then show "\<forall>q. lookup fs q \<noteq> None \<longrightarrow> lookup fs (butlast q) = Some Directory"
    by (simp add: valid_parent)
next
  assume r: "\<forall>q. lookup fs q \<noteq> None \<longrightarrow> lookup fs (butlast q) = Some Directory"
  show "valid fs"
    unfolding valid_def list_all_iff dirname_def
  proof
    fix e assume "e \<in> set fs"
    then have "lookup fs (fst e) \<noteq> None" by (rule in_set_lookup)
    with r show "lookup fs (butlast (fst e)) = Some Directory" by blast
  qed
qed

lemma lookup_filter:
  "lookup (filter (\<lambda>e. K (fst e)) fs) q =
     (if q = [] then Some Directory else if K q then lookup fs q else None)"
  by (simp add: lookup_def map_of_filter restrict_map_def)

lemma lookup_root [simp]: "lookup fs [] = Some Directory"
  by (simp add: lookup_def)

lemma lookup_remove:
  "\<not> prefix p q \<Longrightarrow> lookup (final (remove p fs)) q = lookup fs q"
  using lookup_filter [of "\<lambda>q. \<not> prefix p q" fs q] remove_final [of p fs]
  by (auto simp: below_def)

lemma valid_filter:
  assumes "valid fs" and up: "\<And>q. q \<noteq> [] \<Longrightarrow> K q \<Longrightarrow> K (butlast q) \<or> butlast q = []"
  shows "valid (filter (\<lambda>e. K (fst e)) fs)"
  unfolding valid_iff
proof (intro allI impI)
  fix q assume q: "lookup (filter (\<lambda>e. K (fst e)) fs) q \<noteq> None"
  show "lookup (filter (\<lambda>e. K (fst e)) fs) (butlast q) = Some Directory"
  proof (cases "q = []")
    case True
    then show ?thesis by (simp add: lookup_def)
  next
    case False
    with q have kq: "K q" and lq: "lookup fs q \<noteq> None"
      by (auto simp: lookup_filter split: if_splits)
    from assms(1) lq have par: "lookup fs (butlast q) = Some Directory" by (rule valid_parent)
    from up [OF False kq] par show ?thesis by (auto simp: lookup_filter)
  qed
qed

lemma valid_remove: "valid fs \<Longrightarrow> valid (final (remove p fs))"
proof -
  assume v: "valid fs"
  have "valid (filter (\<lambda>e. \<not> prefix p (fst e)) fs)"
  proof (rule valid_filter [OF v])
    fix q :: path assume "q \<noteq> []" "\<not> prefix p q"
    then show "\<not> prefix p (butlast q) \<or> butlast q = []"
      by (metis prefix_order.trans prefixeq_butlast)
  qed
  with v show ?thesis using remove_final [of p fs] by (auto simp: below_def)
qed


lemma valid_create:
  assumes "valid fs" "lookup fs p = None" "lookup fs (butlast p) = Some Directory"
  shows "valid (put p n fs)"
  unfolding valid_iff
proof (intro allI impI)
  fix q assume q: "lookup (put p n fs) q \<noteq> None"
  from assms(2) have pne: "p \<noteq> []" by (auto simp: lookup_def)
  show "lookup (put p n fs) (butlast q) = Some Directory"
  proof (cases "q = p")
    case True
    have "butlast p \<noteq> p" using pne by (metis not_prefix_butlast prefix_order.refl)
    with assms(3) True show ?thesis by (simp add: lookup_put)
  next
    case False
    with q have lq: "lookup fs q \<noteq> None" by (auto simp: lookup_put split: if_splits)
    with assms(1) have par: "lookup fs (butlast q) = Some Directory" by (rule valid_parent)
    with assms(2) have "butlast q \<noteq> p" by auto
    with par show ?thesis by (simp add: lookup_put)
  qed
qed

lemma valid_overwrite:
  assumes "valid fs" "lookup fs p = Some (File c)"
  shows "valid (put p (File c') fs)"
  unfolding valid_iff
proof (intro allI impI)
  fix q assume q: "lookup (put p (File c') fs) q \<noteq> None"
  from assms(2) have pne: "p \<noteq> []" by (auto simp: lookup_def)
  have np: "butlast p \<noteq> p" using pne by (metis not_prefix_butlast prefix_order.refl)
  show "lookup (put p (File c') fs) (butlast q) = Some Directory"
  proof (cases "q = p")
    case True
    from assms have "lookup fs (butlast p) = Some Directory" by (simp add: valid_parent)
    with np True show ?thesis by (simp add: lookup_put)
  next
    case False
    with q have lq: "lookup fs q \<noteq> None" by (auto simp: lookup_put split: if_splits)
    with assms(1) have par: "lookup fs (butlast q) = Some Directory" by (rule valid_parent)
    with assms(2) have "butlast q \<noteq> p" by auto
    with par show ?thesis by (simp add: lookup_put)
  qed
qed

lemma valid_create_op:
  "valid fs \<Longrightarrow> lookup fs p = None \<Longrightarrow> valid (final (create p n fs))"
  by (auto simp: create_def dirname_def valid_create split: option.splits node.splits)

lemma valid_mkdirp:
  "valid fs \<Longrightarrow> lookup fs pre = Some Directory \<Longrightarrow> valid (final (mkdirp pre rest fs))"
proof (induction rest arbitrary: pre fs)
  case Nil
  then show ?case by simp
next
  case (Cons x rest)
  show ?case
  proof (cases "lookup fs (pre @ [x])")
    case None
    with Cons.prems have "valid (put (pre @ [x]) Directory fs)"
      by (intro valid_create) simp_all
    moreover have "lookup (put (pre @ [x]) Directory fs) (pre @ [x]) = Some Directory"
      by (simp add: lookup_put)
    ultimately show ?thesis using None Cons.IH by simp
  next
    case (Some n)
    with Cons show ?thesis by (cases n) auto
  qed
qed

lemma valid_mkdir: "valid fs \<Longrightarrow> valid (final (mkdir p r fs))"
  by (auto simp: mkdir_def valid_mkdirp valid_create_op lookup_def split: option.splits)

lemma valid_write_file: "valid fs \<Longrightarrow> valid (final (write_file p c fs))"
  by (auto simp: write_file_def valid_create_op valid_overwrite split: option.splits node.splits)

lemma valid_copyFile: "valid fs \<Longrightarrow> valid (final (copyFile s d x fs))"
  by (auto simp: copyFile_def valid_create_op valid_write_file split: sum.splits node.splits option.splits)




section \<open>Invariants of a walk\<close>

lemma walk_invariant:
  assumes "\<And>q d s. I s \<Longrightarrow> I (final (call (walker opts) q d s))"
  shows "I s \<longrightarrow> I (final (walk_impl n p opts s))"
    and "I s \<longrightarrow> I (final (walk_files n p opts fs s))"
proof (induction n p s and n p fs s rule: walk_induct)
  case (no_fuel p s)
  show ?case by simp
next
  case (listing n p s)
  then show ?case by (simp split: sum.splits)
next
  case (no_entries n p s)
  show ?case by simp
next
  case (entry n p f rest s)
  have ve: "I (final (visit_entry n p opts f s))" if "I s"
  proof -
    let ?c = "join p [name f]"
    have c1: "I (final (call (walker opts) ?c f s'))" if "I s'" for s'
      using that assms by blast
    have w1: "I (final (walk_impl n ?c opts s'))" if "I s'" for s'
      using that entry(1) by blast
    show ?thesis
    proof (cases "isDirectory f")
      case False
      then have "final (visit_entry n p opts f s) = final (call (walker opts) ?c f s)"
        by (cases "call (walker opts) ?c f s") (simp_all add: visit_entry_def)
      with c1 [OF \<open>I s\<close>] show ?thesis by simp
    next
      case True
      show ?thesis
      proof (cases "js_and (flags opts) WALK_FILEFIRST \<noteq> 0")
        case ff: True
        show ?thesis
        proof (cases "walk_impl n ?c opts s")
          case (Err e s1)
          with w1 [OF \<open>I s\<close>] True ff show ?thesis by (simp add: visit_entry_def)
        next
          case (Ok u s1)
          with w1 [OF \<open>I s\<close>] have "I s1" by simp
          from c1 [OF this] have "I (final (call (walker opts) ?c f s1))" .
          moreover have "final (visit_entry n p opts f s) = final (call (walker opts) ?c f s1)"
            using True ff Ok by (cases "call (walker opts) ?c f s1") (simp_all add: visit_entry_def)
          ultimately show ?thesis by simp
        qed
      next
        case nf: False
        show ?thesis
        proof (cases "call (walker opts) ?c f s")
          case (Err e s1)
          with c1 [OF \<open>I s\<close>] True nf show ?thesis by (simp add: visit_entry_def)
        next
          case (Ok r s1)
          with c1 [OF \<open>I s\<close>] have "I s1" by simp
          from w1 [OF this] have "I (final (walk_impl n ?c opts s1))" .
          with \<open>I s1\<close> True nf Ok show ?thesis by (simp add: visit_entry_def)
        qed
      qed
    qed
  qed
  show ?case
  proof
    assume "I s"
    from ve [OF this] entry(2) show "I (final (walk_files n p opts (f # rest) s))"
      by (cases "visit_entry n p opts f s") (simp_all add: walk_files_Cons)
  qed
qed

lemma visit_entry_invariant:
  assumes "\<And>q d s. I s \<Longrightarrow> I (final (call (walker opts) q d s))" and "I s"
  shows "I (final (visit_entry n p opts f s))"
proof -
  have "final (walk_files n p opts [f] s) = final (visit_entry n p opts f s)"
    by (cases "visit_entry n p opts f s") (simp_all add: walk_files_Cons)
  with walk_invariant(2) [of I opts s n p "[f]", OF assms(1)] assms(2) show ?thesis by simp
qed

section \<open>What a mirror leaves alone\<close>

lemma final_lift [simp]: "final (lift u r) = (final r, u)"
  by (cases r) simp_all

lemma final_drop_local [simp]: "final (drop_local r) = fst (final r)"
  by (cases r) simp_all

lemma create_final:
  "final (create p n fs) = fs \<or> final (create p n fs) = put p n fs"
  by (auto simp: create_def split: option.splits node.splits)

lemma mkdir_plain_final:
  "final (mkdir p False fs) = fs \<or> final (mkdir p False fs) = put p Directory fs"
  using create_final [of p Directory fs] by (auto simp: mkdir_def split: option.splits)

lemma write_target_plain:
  "(\<forall>t. lookup fs d \<noteq> Some (Symlink t)) \<Longrightarrow> 0 < k \<Longrightarrow> write_target k fs d = Inr d"
  by (cases k) (auto split: option.splits node.splits)

lemma write_file_final:
  "final (write_file p c fs) = fs \<or> final (write_file p c fs) = put p (File c) fs"
  using create_final [of p "File c" fs] by (auto simp: write_file_def split: option.splits node.splits)

lemma copyFile_final:
  assumes "\<forall>t. lookup fs d \<noteq> Some (Symlink t)"
  shows "final (copyFile s d False fs) = fs \<or> (\<exists>c. final (copyFile s d False fs) = put d (File c) fs)"
proof -
  from assms have "write_target 40 fs d = Inr d" by (simp add: write_target_plain)
  then show ?thesis
    using write_file_final [of d _ fs]
    by (auto simp: copyFile_def split: sum.splits node.splits)
qed

lemma frame_put:
  assumes "kept_outside dest fs0 fs" "no_links_below dest fs" "prefix dest p"
    "\<forall>t. n \<noteq> Symlink t"
  shows "kept_outside dest fs0 (put p n fs) \<and> no_links_below dest (put p n fs)"
  using assms unfolding kept_outside_def no_links_below_def
  by (auto simp: lookup_put)

lemma copy_walker_frame:
  assumes "kept_outside dest fs0 (fst s) \<and> no_links_below dest (fst s)"
  shows "kept_outside dest fs0 (fst (final (call (Function (copy_walker src dest False)) q d s))) \<and>
         no_links_below dest (fst (final (call (Function (copy_walker src dest False)) q d s)))"
proof -
  let ?p = "join dest q"
  let ?op = "if isDirectory d then mkdir ?p False (fst s) else copyFile (join src q) ?p False (fst s)"
  have pd: "prefix dest ?p" by (simp add: join_def)
  have fin: "fst (final (call (Function (copy_walker src dest False)) q d s)) = final ?op"
    by (cases ?op) (simp_all add: copy_walker_def Let_def)
  from assms pd have nl: "\<forall>t. lookup (fst s) ?p \<noteq> Some (Symlink t)"
    unfolding no_links_below_def by blast
  have "final ?op = fst s \<or> (\<exists>n. (\<forall>t. n \<noteq> Symlink t) \<and> final ?op = put ?p n (fst s))"
  proof (cases "isDirectory d")
    case True
    then show ?thesis using mkdir_plain_final [of ?p "fst s"] by auto
  next
    case False
    then show ?thesis using copyFile_final [OF nl, of "join src q"] by auto
  qed
  then show ?thesis
    unfolding fin using assms frame_put [OF _ _ pd] by (elim disjE exE conjE) auto
qed

lemma prune_walker_frame:
  assumes "kept_outside dest fs0 (fst s)"
  shows "kept_outside dest fs0 (fst (final (call (Function (prune_walker dest)) q d s)))"
proof (cases "snd s")
  case None
  with assms show ?thesis by (simp add: prune_walker_def)
next
  case (Some V)
  show ?thesis
  proof (cases "join dest q \<in> set V")
    case True
    with Some assms show ?thesis by (simp add: prune_walker_def)
  next
    case False
    have "fst (final (call (Function (prune_walker dest)) q d s)) = final (remove (join dest q) (fst s))"
      using Some False by (cases "remove (join dest q) (fst s)") (simp_all add: prune_walker_def)
    moreover have "kept_outside dest fs0 (final (remove (join dest q) (fst s)))"
      unfolding kept_outside_def
    proof (intro allI impI)
      fix r assume r: "\<not> prefix dest r"
      then have "\<not> prefix (dest @ q) r" by (meson append_prefixD)
      moreover from assms r have "lookup (fst s) r = lookup fs0 r"
        unfolding kept_outside_def by blast
      ultimately show "lookup (final (remove (join dest q) (fst s))) r = lookup fs0 r"
        by (simp add: lookup_remove join_def)
    qed
    ultimately show ?thesis by simp
  qed
qed

lemma prune_frame:
  assumes "kept_outside dest fs0 (fst s)"
  shows "kept_outside dest fs0 (fst (final (prune n dest s)))"
proof (cases "snd s \<noteq> None")
  case False
  with assms show ?thesis by (simp add: prune_def)
next
  case True
  have "kept_outside dest fs0 (fst s) \<longrightarrow>
        kept_outside dest fs0 (fst (final (walk_impl n [] (prune_options dest) s)))"
    by (rule walk_invariant(1) [where I = "\<lambda>s. kept_outside dest fs0 (fst s)"])
       (simp add: prune_options_def prune_walker_frame del: call.simps)
  with assms True show ?thesis by (simp add: prune_def)
qed

lemma copy_exclusive_frame:
  assumes "flag_set fl COPY_EXCL" and "valid fs"
  shows "final (copy_impl n src dest fl fs) = fs \<or>
         (lookup fs dest = None \<and> kept_outside dest fs (final (copy_impl n src dest fl fs)))"
proof (cases "mkdir dest False fs")
  case (Err e fs1)
  then have "final (mkdir dest False fs) = fs"
    by (auto simp: mkdir_def create_def split: option.splits node.splits)
  with Err have "fs1 = fs" by simp
  with Err assms(1) show ?thesis by (simp add: copy_impl_def copy_primary_def)
next
  case (Ok u fs1)
  let ?ep = "(if flag_set fl COPY_RMNONEXISTENT then Some [] else None) :: path list option"
  let ?opts = "\<lparr>root = src, flags = Undefined, walker = Function (copy_walker src dest False)\<rparr>"
  let ?I = "\<lambda>s. kept_outside dest fs (fst s) \<and> no_links_below dest (fst s)"
  from Ok have ab: "lookup fs dest = None" and fs1: "fs1 = put dest Directory fs"
    by (auto simp: mkdir_def create_def split: option.splits node.splits)
  have I1: "?I (fs1, ?ep)"
    unfolding kept_outside_def no_links_below_def fs1
  proof (intro conjI allI impI)
    fix q assume "\<not> prefix dest q"
    then show "lookup (fst (put dest Directory fs, ?ep)) q = lookup fs q"
      by (auto simp: lookup_put)
  next
    fix q t assume "prefix dest q"
    then obtain r where "q = dest @ r" by (auto simp: prefix_def)
    with assms(2) ab have "lookup fs q = None" by (simp add: valid_absent_below)
    then show "lookup (fst (put dest Directory fs, ?ep)) q \<noteq> Some (Symlink t)"
      by (auto simp: lookup_put)
  qed
  have "?I (fs1, ?ep) \<longrightarrow> ?I (final (walk_impl n [] ?opts (fs1, ?ep)))"
  proof (rule walk_invariant(1) [where I = ?I])
    fix q d and s :: "path list option world"
    assume "?I s"
    then show "?I (final (call (walker ?opts) q d s))"
      using copy_walker_frame [of dest fs s src q d] by simp
  qed
  with I1 have I2: "?I (final (walk_impl n [] ?opts (fs1, ?ep)))" by blast
  have prim: "copy_primary n src dest fl fs = walk_impl n [] ?opts (fs1, ?ep)"
    using Ok assms(1) by (simp add: copy_primary_def)
  have "kept_outside dest fs (final (copy_impl n src dest fl fs))"
  proof (cases "walk_impl n [] ?opts (fs1, ?ep)")
    case (Err e s2)
    with I2 prim show ?thesis by (simp add: copy_impl_def)
  next
    case (Ok u2 s2)
    with I2 have "kept_outside dest fs (fst s2)" by simp
    then have "kept_outside dest fs (fst (final (prune n dest s2)))" by (rule prune_frame)
    with Ok prim show ?thesis by (simp add: copy_impl_def)
  qed
  with ab show ?thesis by blast
qed

lemma copy_exclusive_keeps:
  assumes "flag_set fl COPY_EXCL" and "valid fs" and "stat fs src = Inr Directory"
    and "lookup fs p = Some e"
  shows "lookup (final (copy n src dest fl fs)) p = Some e"
proof -
  from assms(3) have cp: "copy n src dest fl fs = copy_impl n src dest fl fs"
    by (simp add: copy_def)
  from copy_exclusive_frame [OF assms(1,2), of n src dest]
  show ?thesis
  proof
    assume "final (copy_impl n src dest fl fs) = fs"
    with cp assms(4) show ?thesis by simp
  next
    assume a: "lookup fs dest = None \<and> kept_outside dest fs (final (copy_impl n src dest fl fs))"
    have "\<not> prefix dest p"
    proof
      assume "prefix dest p"
      then obtain r where "p = dest @ r" by (auto simp: prefix_def)
      with a assms(2) have "lookup fs p = None" by (simp add: valid_absent_below)
      with assms(4) show False by simp
    qed
    with a cp assms(4) show ?thesis unfolding kept_outside_def by simp
  qed
qed

section \<open>The reconciliation pass\<close>

lemma stale_via_unrecorded: "c \<notin> set V \<Longrightarrow> stale_via V c q \<longleftrightarrow> prefix c q"
  unfolding stale_via_def using prefix_order.trans by blast

lemma stale_via_recorded: "c \<in> set V \<Longrightarrow> stale_via V c q \<longleftrightarrow> stale_below V c q"
  unfolding stale_via_def stale_below_def strict_prefix_def by blast

lemma stale_via_needs_directory:
  assumes "valid fs" "c \<in> set V" "stale_via V c q" "lookup fs q \<noteq> None"
  shows "lookup fs c = Some Directory"
proof -
  from assms(3) obtain r where r: "prefix c r" "prefix r q" "r \<notin> set V"
    unfolding stale_via_def by blast
  with assms(2) have "c \<noteq> r" by auto
  from r(1,2) have "prefix c q" by (rule prefix_order.trans)
  then obtain t where t: "q = c @ t" by (auto simp: prefix_def)
  have "t \<noteq> []"
  proof
    assume "t = []"
    with t r(1,2) have "r = c" by (simp add: prefix_order.antisym)
    with \<open>c \<noteq> r\<close> show False by simp
  qed
  with assms(1,4) t show ?thesis using valid_ancestor [of fs c t] by simp
qed

lemma map_filter_in:
  "f \<in> set (List.map_filter g xs) \<Longrightarrow> \<exists>x\<in>set xs. g x = Some f"
  by (auto simp: List.map_filter_def)

lemma listing_entry:
  assumes "readdir fs b = Inr files" "f \<in> set files"
  shows "\<exists>n. lookup fs (b @ [name f]) = Some n \<and> kind f = kind_of n"
proof -
  from assms(1) have "files = entries fs b"
    by (auto simp: readdir_def split: option.splits node.splits)
  with assms(2) obtain x n where "lookup fs (b @ [x]) = Some n" "f = \<lparr>name = x, kind = kind_of n\<rparr>"
    unfolding entries_def by (auto dest!: map_filter_in)
  then show ?thesis by simp
qed

lemma listing_kind:
  assumes "readdir fs b = Inr files" "f \<in> set files" "kind f \<noteq> KDirectory"
  shows "lookup fs (b @ [name f]) \<noteq> Some Directory"
  using listing_entry [OF assms(1,2)] assms(3) by auto

lemma listing_has:
  assumes "readdir fs b = Inr files" "lookup fs (b @ [x]) \<noteq> None"
  shows "x \<in> name ` set files"
proof -
  from assms(1) have files: "files = entries fs b"
    by (auto simp: readdir_def split: option.splits node.splits)
  from assms(2) obtain n where "(b @ [x], n) \<in> set fs"
    using lookup_in_set [of fs "b @ [x]"] by auto
  then have "(b @ [x], n) \<in> set (filter (\<lambda>(q, n). q \<noteq> [] \<and> butlast q = b) fs)"
    by simp
  then have "(last \<circ> fst) (b @ [x], n) \<in> (last \<circ> fst) ` set (filter (\<lambda>(q, n). q \<noteq> [] \<and> butlast q = b) fs)"
    by (rule imageI)
  then have "x \<in> set (child_names fs b)" by (simp add: child_names_def)
  with assms(2) have "x \<in> set (map name (entries fs b))" by (simp add: entries_names)
  with files show ?thesis by simp
qed

lemma stale_below_listing:
  assumes "valid fs" "readdir fs b = Inr files" "lookup fs q \<noteq> None"
  shows "stale_below V b q \<longleftrightarrow> (\<exists>f\<in>set files. stale_via V (b @ [name f]) q)"
proof
  assume "\<exists>f\<in>set files. stale_via V (b @ [name f]) q"
  then obtain f :: dirent and r where "prefix (b @ [name f]) r" "prefix r q" "r \<notin> set V"
    unfolding stale_via_def by blast
  moreover from this(1) have "strict_prefix b r" by (auto simp: prefix_def strict_prefix_def)
  ultimately show "stale_below V b q" unfolding stale_below_def by blast
next
  assume "stale_below V b q"
  then obtain r where r: "strict_prefix b r" "prefix r q" "r \<notin> set V"
    unfolding stale_below_def by blast
  from r(1) obtain zs where zs: "r = b @ zs" "zs \<noteq> []"
    by (auto simp: strict_prefix_def prefix_def)
  then obtain x t where rx: "r = b @ x # t" by (cases zs) auto
  with r(2) obtain t' where q: "q = (b @ [x]) @ t'" by (auto simp: prefix_def)
  have "lookup fs (b @ [x]) \<noteq> None"
  proof
    assume "lookup fs (b @ [x]) = None"
    from valid_absent_below [OF assms(1) this, of t'] q assms(3) show False by simp
  qed
  with assms(2) obtain f where f: "f \<in> set files" "name f = x" using listing_has by force
  have "prefix (b @ [name f]) r" using rx f(2) by (simp add: prefix_def)
  with r(2,3) f(1) show "\<exists>f\<in>set files. stale_via V (b @ [name f]) q"
    unfolding stale_via_def by blast
qed

lemma valid_filter_stale:
  assumes "valid fs"
  shows "valid (filter (\<lambda>e. \<not> stale_via V c (fst e)) fs)"
proof (rule valid_filter [OF assms])
  fix q :: path assume "q \<noteq> []" "\<not> stale_via V c q"
  have "\<not> stale_via V c (butlast q)"
  proof
    assume "stale_via V c (butlast q)"
    then obtain r where "prefix c r" "prefix r (butlast q)" "r \<notin> set V"
      unfolding stale_via_def by blast
    moreover from this(2) have "prefix r q" by (meson prefix_order.trans prefixeq_butlast)
    ultimately have "stale_via V c q" unfolding stale_via_def by blast
    with \<open>\<not> stale_via V c q\<close> show False by simp
  qed
  then show "\<not> stale_via V c (butlast q) \<or> butlast q = []" by simp
qed

lemma prune_walker_call:
  "lookup fs (join dest q) \<noteq> None \<Longrightarrow>
   call (walker (prune_options dest)) q d (fs, Some V) =
     (if join dest q \<notin> set V
      then Ok (JBool False) (filter (\<lambda>e. \<not> prefix (join dest q) (fst e)) fs, Some V)
      else Ok JUndefined (fs, Some V))"
  by (simp add: prune_options_def prune_walker_def remove_existing below_def)

lemma prune_visit_entry:
  assumes IH: "\<And>q fs u s'. valid fs \<Longrightarrow>
        walk_impl n q (prune_options dest) (fs, Some V) = Ok u s' \<Longrightarrow>
        s' = (filter (\<lambda>e. \<not> stale_below V (dest @ q) (fst e)) fs, Some V)"
    and v: "valid fs"
    and kd: "kind f \<noteq> KDirectory \<longrightarrow> lookup fs (dest @ p @ [name f]) \<noteq> Some Directory"
    and ex: "lookup fs (dest @ p @ [name f]) \<noteq> None"
    and ok: "visit_entry n p (prune_options dest) f (fs, Some V) = Ok u s'"
  shows "s' = (filter (\<lambda>e. \<not> stale_via V (dest @ p @ [name f]) (fst e)) fs, Some V)"
proof -
  let ?c = "dest @ p @ [name f]"
  have fl: "js_and (flags (prune_options dest)) WALK_FILEFIRST = 0"
    by (simp add: prune_options_def)
  have jc: "join dest (join p [name f]) = ?c" by (simp add: join_def)
  from ex jc have pc: "call (walker (prune_options dest)) (join p [name f]) f (fs, Some V) =
     (if ?c \<notin> set V
      then Ok (JBool False) (filter (\<lambda>e. \<not> prefix ?c (fst e)) fs, Some V)
      else Ok JUndefined (fs, Some V))"
    using prune_walker_call [of fs dest "join p [name f]" f V] by simp
  show ?thesis
  proof (cases "?c \<in> set V")
    case False
    have "visit_entry n p (prune_options dest) f (fs, Some V) =
            Ok () (filter (\<lambda>e. \<not> prefix ?c (fst e)) fs, Some V)"
      using False fl by (simp add: visit_entry_def pc del: call.simps)
    with ok have "s' = (filter (\<lambda>e. \<not> prefix ?c (fst e)) fs, Some V)" by simp
    moreover have "filter (\<lambda>e. \<not> prefix ?c (fst e)) fs =
                   filter (\<lambda>e. \<not> stale_via V ?c (fst e)) fs"
      using False by (simp add: stale_via_unrecorded)
    ultimately show ?thesis by simp
  next
    case True
    show ?thesis
    proof (cases "isDirectory f")
      case dir: True
      have "visit_entry n p (prune_options dest) f (fs, Some V) =
              walk_impl n (join p [name f]) (prune_options dest) (fs, Some V)"
        using True dir fl by (simp add: visit_entry_def pc del: call.simps)
      with ok have "walk_impl n (p @ [name f]) (prune_options dest) (fs, Some V) = Ok u s'"
        by (simp add: join_def)
      from IH [OF v this] have "s' = (filter (\<lambda>e. \<not> stale_below V ?c (fst e)) fs, Some V)"
        by simp
      then show ?thesis using True by (simp add: stale_via_recorded)
    next
      case nodir: False
      have "visit_entry n p (prune_options dest) f (fs, Some V) = Ok () (fs, Some V)"
        using True nodir fl by (simp add: visit_entry_def pc del: call.simps)
      with ok have s': "s' = (fs, Some V)" by simp
      from nodir kd have nd: "lookup fs ?c \<noteq> Some Directory" by (simp add: isDirectory_def)
      have "\<not> stale_via V ?c (fst e)" if "e \<in> set fs" for e
      proof
        assume "stale_via V ?c (fst e)"
        moreover from that have "lookup fs (fst e) \<noteq> None" by (rule in_set_lookup)
        ultimately have "lookup fs ?c = Some Directory"
          using v True by (intro stale_via_needs_directory [of fs ?c V "fst e"])
        with nd show False by simp
      qed
      then have "filter (\<lambda>e. \<not> stale_via V ?c (fst e)) fs = fs" by (simp add: filter_id_conv)
      with s' show ?thesis by simp
    qed
  qed
qed

lemma prune_walk:
  shows "\<forall>fs u s'. s = (fs, Some V) \<longrightarrow> valid fs \<longrightarrow>
           walk_impl n p (prune_options dest) s = Ok u s' \<longrightarrow>
           s' = (filter (\<lambda>e. \<not> stale_below V (dest @ p) (fst e)) fs, Some V)"
    and "\<forall>fs u s'. s = (fs, Some V) \<longrightarrow> valid fs \<longrightarrow> distinct (map name fl) \<longrightarrow>
           (\<forall>f\<in>set fl. kind f \<noteq> KDirectory \<longrightarrow> lookup fs (dest @ p @ [name f]) \<noteq> Some Directory) \<longrightarrow>
           (\<forall>f\<in>set fl. lookup fs (dest @ p @ [name f]) \<noteq> None) \<longrightarrow>
           walk_files n p (prune_options dest) fl s = Ok u s' \<longrightarrow>
           s' = (filter (\<lambda>e. \<not> (\<exists>f\<in>set fl. stale_via V (dest @ p @ [name f]) (fst e))) fs, Some V)"
proof (induction n p s and n p fl s rule: walk_induct)
  case (no_fuel p s)
  show ?case by simp
next
  case (listing n p s)
  show ?case
  proof (intro allI impI)
    fix fs u s'
    assume s: "s = (fs, Some V)" and v: "valid fs"
      and ok: "walk_impl (Suc n) p (prune_options dest) s = Ok u s'"
    have rt: "join (root (prune_options dest)) p = dest @ p"
      by (simp add: prune_options_def join_def)
    from ok s rt obtain files where files: "readdir fs (dest @ p) = Inr files"
      by (cases "readdir fs (dest @ p)") auto
    with ok s rt have wf: "walk_files n p (prune_options dest) files s = Ok u s'" by simp
    have d: "distinct (map name files)" using files by (rule readdir_distinct)
    have k: "\<forall>f\<in>set files. kind f \<noteq> KDirectory \<longrightarrow> lookup fs (dest @ p @ [name f]) \<noteq> Some Directory"
      using listing_kind [OF files] by simp
    have x: "\<forall>f\<in>set files. lookup fs (dest @ p @ [name f]) \<noteq> None"
      using listing_entry [OF files] by fastforce
    from listing [of s files] s v d k x wf
    have s': "s' = (filter (\<lambda>e. \<not> (\<exists>f\<in>set files. stale_via V (dest @ p @ [name f]) (fst e))) fs, Some V)"
      by blast
    have "filter (\<lambda>e. \<not> (\<exists>f\<in>set files. stale_via V (dest @ p @ [name f]) (fst e))) fs =
          filter (\<lambda>e. \<not> stale_below V (dest @ p) (fst e)) fs"
    proof (rule filter_cong [OF refl])
      fix e assume "e \<in> set fs"
      then have "lookup fs (fst e) \<noteq> None" by (rule in_set_lookup)
      from stale_below_listing [OF v files this, of V]
      show "(\<not> (\<exists>f\<in>set files. stale_via V (dest @ p @ [name f]) (fst e))) =
            (\<not> stale_below V (dest @ p) (fst e))" by simp
    qed
    with s' show "s' = (filter (\<lambda>e. \<not> stale_below V (dest @ p) (fst e)) fs, Some V)" by simp
  qed
next
  case (no_entries n p s)
  show ?case by simp
next
  case (entry n p f rest s)
  show ?case
  proof (intro allI impI)
    fix fs u s'
    assume s: "s = (fs, Some V)" and v: "valid fs"
      and d: "distinct (map name (f # rest))"
      and k: "\<forall>g\<in>set (f # rest). kind g \<noteq> KDirectory \<longrightarrow>
                lookup fs (dest @ p @ [name g]) \<noteq> Some Directory"
      and x: "\<forall>g\<in>set (f # rest). lookup fs (dest @ p @ [name g]) \<noteq> None"
      and ok: "walk_files n p (prune_options dest) (f # rest) s = Ok u s'"
    from ok s obtain u1 s1 where s1: "visit_entry n p (prune_options dest) f (fs, Some V) = Ok u1 s1"
      "walk_files n p (prune_options dest) rest s1 = Ok u s'"
      by (cases "visit_entry n p (prune_options dest) f (fs, Some V)") (auto simp: walk_files_Cons)
    let ?K = "\<lambda>e. \<not> stale_via V (dest @ p @ [name f]) (fst e)"
    have IH1: "\<And>q fs u s'. valid fs \<Longrightarrow>
        walk_impl n q (prune_options dest) (fs, Some V) = Ok u s' \<Longrightarrow>
        s' = (filter (\<lambda>e. \<not> stale_below V (dest @ q) (fst e)) fs, Some V)"
      using entry(1) by blast
    have kf: "kind f \<noteq> KDirectory \<longrightarrow> lookup fs (dest @ p @ [name f]) \<noteq> Some Directory"
      using k by simp
    have xf: "lookup fs (dest @ p @ [name f]) \<noteq> None"
      using x by simp
    have s1eq: "s1 = (filter ?K fs, Some V)"
      by (rule prune_visit_entry [OF IH1 v kf xf s1(1)])
    have v1: "valid (filter ?K fs)" using v by (rule valid_filter_stale)
    have d1: "distinct (map name rest)" using d by simp
    have k1: "\<forall>g\<in>set rest. kind g \<noteq> KDirectory \<longrightarrow>
                lookup (filter ?K fs) (dest @ p @ [name g]) \<noteq> Some Directory"
    proof (intro ballI impI)
      fix g assume "g \<in> set rest" "kind g \<noteq> KDirectory"
      with k have "lookup fs (dest @ p @ [name g]) \<noteq> Some Directory" by simp
      then show "lookup (filter ?K fs) (dest @ p @ [name g]) \<noteq> Some Directory"
        using lookup_filter [of "\<lambda>q. \<not> stale_via V (dest @ p @ [name f]) q" fs "dest @ p @ [name g]"]
        by (simp split: if_splits)
    qed
    have x1: "\<forall>g\<in>set rest. lookup (filter ?K fs) (dest @ p @ [name g]) \<noteq> None"
    proof
      fix g assume g: "g \<in> set rest"
      then have "name g \<in> name ` set rest" by (rule imageI)
      with d have ne: "name g \<noteq> name f" by auto
      have "\<not> stale_via V (dest @ p @ [name f]) (dest @ p @ [name g])"
      proof
        assume "stale_via V (dest @ p @ [name f]) (dest @ p @ [name g])"
        then obtain r where "prefix (dest @ p @ [name f]) r" "prefix r (dest @ p @ [name g])"
          unfolding stale_via_def by blast
        then have "prefix ((dest @ p) @ [name f]) ((dest @ p) @ [name g])"
          using prefix_order.trans by fastforce
        with ne show False by simp
      qed
      moreover from g x have "lookup fs (dest @ p @ [name g]) \<noteq> None" by simp
      ultimately show "lookup (filter ?K fs) (dest @ p @ [name g]) \<noteq> None"
        using lookup_filter [of "\<lambda>q. \<not> stale_via V (dest @ p @ [name f]) q" fs "dest @ p @ [name g]"]
        by simp
    qed
    from entry(2) [of s1] s1eq v1 d1 k1 x1 s1(2)
    have "s' = (filter (\<lambda>e. \<not> (\<exists>g\<in>set rest. stale_via V (dest @ p @ [name g]) (fst e)))
                  (filter ?K fs), Some V)"
      by blast
    also have "filter (\<lambda>e. \<not> (\<exists>g\<in>set rest. stale_via V (dest @ p @ [name g]) (fst e))) (filter ?K fs) =
               filter (\<lambda>e. \<not> (\<exists>g\<in>set (f # rest). stale_via V (dest @ p @ [name g]) (fst e))) fs"
      by (auto simp: filter_filter intro: filter_cong)
    finally show "s' = (filter (\<lambda>e. \<not> (\<exists>g\<in>set (f # rest). stale_via V (dest @ p @ [name g]) (fst e))) fs, Some V)" .
  qed
qed

section \<open>The recorded paths of the primary pass\<close>

lemma closed_from_append:
  "closed_from b xs \<Longrightarrow> closed_from b ys \<Longrightarrow> closed_from b (xs @ ys)"
  unfolding closed_from_def by auto

lemma closed_from_single: "closed_from b [b @ [x]]"
  unfolding closed_from_def
  by (auto simp: strict_prefix_def prefix_def append_eq_append_conv2 Cons_eq_append_conv)

lemma closed_from_Cons:
  assumes "closed_from (b @ [x]) ys"
  shows "closed_from b ((b @ [x]) # ys)"
  unfolding closed_from_def
proof (intro ballI conjI allI impI)
  fix y assume y: "y \<in> set ((b @ [x]) # ys)"
  have pc: "prefix (b @ [x]) y"
  proof (cases "y = b @ [x]")
    case True
    then show ?thesis by simp
  next
    case False
    with y have "y \<in> set ys" by simp
    with assms have "strict_prefix (b @ [x]) y" unfolding closed_from_def by blast
    then show ?thesis by (simp add: strict_prefix_def)
  qed
  then obtain t where "y = (b @ [x]) @ t" unfolding prefix_def by blast
  then show "strict_prefix b y" by (simp add: strict_prefix_def prefix_def)
  fix r assume r: "strict_prefix b r \<and> prefix r y"
  then obtain zs where zs: "r = b @ zs" "zs \<noteq> []"
    by (auto simp: strict_prefix_def prefix_def)
  then obtain z t where rz: "r = b @ z # t" by (cases zs) auto
  then have "prefix (b @ [z]) r" by (simp add: prefix_def)
  with r have "prefix (b @ [z]) y" using prefix_order.trans by blast
  from same_level [OF this pc] have "z = x" .
  with rz have pr: "prefix (b @ [x]) r" by (simp add: prefix_def)
  show "r \<in> set ((b @ [x]) # ys)"
  proof (cases "r = b @ [x]")
    case True
    then show ?thesis by simp
  next
    case False
    with pr have sp: "strict_prefix (b @ [x]) r" by (simp add: strict_prefix_def)
    have "y \<noteq> b @ [x]"
    proof
      assume "y = b @ [x]"
      with r pr have "r = b @ [x]" by (simp add: prefix_order.antisym)
      with False show False by simp
    qed
    with y have "y \<in> set ys" by simp
    with assms sp r have "r \<in> set ys" unfolding closed_from_def by blast
    then show ?thesis by simp
  qed
qed

lemma recording_call:
  assumes "records dest w" "walker opts = Function w"
  shows "snd (final (call (walker opts) q d (fs, Some V))) = Some (V @ [join dest q])"
  using assms unfolding records_def by simp

lemma recording_visit_entry:
  assumes fl: "js_and (flags opts) WALK_FILEFIRST = 0"
    and w: "records dest w" "walker opts = Function w"
    and IH: "\<And>q fs V. \<exists>ys. snd (final (walk_impl n q opts (fs, Some V))) = Some (V @ ys) \<and>
                closed_from (dest @ q) ys"
  shows "\<exists>ys. snd (final (visit_entry n p opts f (fs, Some V))) = Some (V @ ys) \<and>
           closed_from (dest @ p) ys"
proof -
  let ?q = "join p [name f]"
  let ?c = "(dest @ p) @ [name f]"
  let ?r = "call (walker opts) ?q f (fs, Some V)"
  have rec: "snd (final ?r) = Some (V @ [?c])"
    using recording_call [OF w, of ?q f fs V] by (simp add: join_def)
  have one: "closed_from (dest @ p) [?c]" by (rule closed_from_single)
  show ?thesis
  proof (cases ?r)
    case (Err e s1)
    then have "visit_entry n p opts f (fs, Some V) = Err e s1"
      using fl by (simp add: visit_entry_def)
    with Err rec one show ?thesis by (intro exI [of _ "[?c]"]) simp
  next
    case (Ok res s1)
    with rec have s1: "snd s1 = Some (V @ [?c])" by simp
    show ?thesis
    proof (cases "isDirectory f \<and> res \<noteq> JBool False")
      case False
      then have "visit_entry n p opts f (fs, Some V) = Ok () s1"
        using fl Ok by (auto simp: visit_entry_def)
      with s1 one show ?thesis by (intro exI [of _ "[?c]"]) simp
    next
      case True
      then have ve: "visit_entry n p opts f (fs, Some V) = walk_impl n ?q opts s1"
        using fl Ok by (simp add: visit_entry_def)
      from s1 obtain fs1 where s1e: "s1 = (fs1, Some (V @ [?c]))" by (cases s1) simp
      from IH [of ?q fs1 "V @ [?c]"] obtain ys where
        ys: "snd (final (walk_impl n ?q opts s1)) = Some ((V @ [?c]) @ ys)"
          "closed_from (dest @ ?q) ys"
        unfolding s1e by blast
      from ys(2) have "closed_from ((dest @ p) @ [name f]) ys" by (simp add: join_def)
      then have "closed_from (dest @ p) (?c # ys)" by (rule closed_from_Cons)
      with ve ys(1) show ?thesis by (intro exI [of _ "?c # ys"]) simp
    qed
  qed
qed

lemma recording_walk:
  assumes fl: "js_and (flags opts) WALK_FILEFIRST = 0"
    and w: "records dest w" "walker opts = Function w"
  shows "\<forall>fs V. s = (fs, Some V) \<longrightarrow>
           (\<exists>ys. snd (final (walk_impl n p opts s)) = Some (V @ ys) \<and> closed_from (dest @ p) ys)"
    and "\<forall>fs V. s = (fs, Some V) \<longrightarrow>
           (\<exists>ys. snd (final (walk_files n p opts fl s)) = Some (V @ ys) \<and> closed_from (dest @ p) ys)"
proof (induction n p s and n p fl s rule: walk_induct)
  case (no_fuel p s)
  show ?case by (auto simp: closed_from_def)
next
  case (listing n p s)
  show ?case
  proof (intro allI impI)
    fix fs V assume s: "s = (fs, Some V)"
    show "\<exists>ys. snd (final (walk_impl (Suc n) p opts s)) = Some (V @ ys) \<and> closed_from (dest @ p) ys"
    proof (cases "readdir (fst s) (join (root opts) p)")
      case (Inl e)
      with s show ?thesis by (auto simp: closed_from_def)
    next
      case (Inr files)
      from listing [of s files, rule_format, OF s] Inr show ?thesis by simp
    qed
  qed
next
  case (no_entries n p s)
  show ?case by (auto simp: closed_from_def)
next
  case (entry n p f rest s)
  show ?case
  proof (intro allI impI)
    fix fs V assume s: "s = (fs, Some V)"
    have IH1: "\<And>q fs V. \<exists>ys. snd (final (walk_impl n q opts (fs, Some V))) = Some (V @ ys) \<and>
                closed_from (dest @ q) ys"
      using entry(1) by blast
    from recording_visit_entry [OF fl w IH1, of p f fs V] obtain ys1 where
      ys1: "snd (final (visit_entry n p opts f (fs, Some V))) = Some (V @ ys1)"
        "closed_from (dest @ p) ys1" by blast
    show "\<exists>ys. snd (final (walk_files n p opts (f # rest) s)) = Some (V @ ys) \<and>
            closed_from (dest @ p) ys"
    proof (cases "visit_entry n p opts f (fs, Some V)")
      case (Err e s1)
      with ys1 s show ?thesis by (intro exI [of _ ys1]) (simp add: walk_files_Cons)
    next
      case (Ok u s1)
      with ys1 obtain fs1 where s1: "s1 = (fs1, Some (V @ ys1))" by (cases s1) simp
      from entry(2) [of s1, rule_format, OF s1] obtain ys2 where
        ys2: "snd (final (walk_files n p opts rest s1)) = Some ((V @ ys1) @ ys2)"
          "closed_from (dest @ p) ys2" by blast
      have "closed_from (dest @ p) (ys1 @ ys2)" using ys1(2) ys2(2) by (rule closed_from_append)
      with ys2(1) Ok s show ?thesis
        by (intro exI [of _ "ys1 @ ys2"]) (simp add: walk_files_Cons)
    qed
  qed
qed

lemma lifted_local: "snd (final (bind (lift u r) (\<lambda>v s1. Ok x s1))) = u"
  by (cases r) simp_all

lemma copy_walker_records: "records dest (copy_walker src dest r)"
  unfolding records_def copy_walker_def Let_def
  by (simp add: lifted_local)


lemma copy_walker_valid:
  assumes "valid (fst s)"
  shows "valid (fst (final (call (Function (copy_walker src dest r)) q d s)))"
proof -
  let ?op = "if isDirectory d then mkdir (join dest q) r (fst s)
             else copyFile (join src q) (join dest q) False (fst s)"
  have "fst (final (call (Function (copy_walker src dest r)) q d s)) = final ?op"
    by (cases ?op) (simp_all add: copy_walker_def Let_def)
  moreover have "valid (final ?op)" using assms by (simp add: valid_mkdir valid_copyFile)
  ultimately show ?thesis by simp
qed


lemma stale_below_closed:
  assumes "closed_from dest V"
  shows "stale_below V dest q \<longleftrightarrow> strict_prefix dest q \<and> q \<notin> set V"
proof
  assume "stale_below V dest q"
  then obtain r where r: "strict_prefix dest r" "prefix r q" "r \<notin> set V"
    unfolding stale_below_def by blast
  from r(1,2) have "strict_prefix dest q" by (metis prefix_order.less_le_trans)
  moreover have "q \<notin> set V"
  proof
    assume "q \<in> set V"
    with assms r(1,2) have "r \<in> set V" unfolding closed_from_def by blast
    with r(3) show False by simp
  qed
  ultimately show "strict_prefix dest q \<and> q \<notin> set V" by simp
next
  assume "strict_prefix dest q \<and> q \<notin> set V"
  then show "stale_below V dest q" unfolding stale_below_def by blast
qed

text \<open>The two passes of a mirror, given its walker.\<close>

lemma mirror_reconciled:
  assumes v: "valid fs"
    and rec: "records dest w"
    and wv: "\<And>q d s. valid (fst s) \<Longrightarrow> valid (fst (final (call (Function w) q d s)))"
    and ok: "bind (bind (lift (Some []) (mkdir dest r fs))
                 (\<lambda>u s. walk_impl n [] \<lparr>root = src, flags = Undefined, walker = Function w\<rparr> s))
               (\<lambda>u s. prune n dest s) = Ok () s2"
  shows "\<exists>fs1 V. bind (lift (Some []) (mkdir dest r fs))
                 (\<lambda>u s. walk_impl n [] \<lparr>root = src, flags = Undefined, walker = Function w\<rparr> s)
               = Ok () (fs1, Some V) \<and>
           fst s2 = filter (\<lambda>e. \<not> (strict_prefix dest (fst e) \<and> fst e \<notin> set V)) fs1"
proof -
  let ?opts = "\<lparr>root = src, flags = Undefined, walker = Function w\<rparr>"
  let ?prim = "bind (lift (Some []) (mkdir dest r fs)) (\<lambda>u s. walk_impl n [] ?opts s)"
  from ok obtain s1 where prim: "?prim = Ok () s1" and pr: "prune n dest s1 = Ok () s2"
    by (cases ?prim) auto
  from prim obtain fs0 where mk: "mkdir dest r fs = Ok () fs0"
    and wk: "walk_impl n [] ?opts (fs0, Some []) = Ok () s1"
    by (cases "mkdir dest r fs") auto
  have v0: "valid fs0" using valid_mkdir [OF v, of dest r] mk by simp
  let ?s0 = "(fs0, Some []) :: path list option world"
  have "valid (fst ?s0) \<longrightarrow> valid (fst (final (walk_impl n [] ?opts ?s0)))"
    by (rule walk_invariant(1) [where I = "\<lambda>s. valid (fst s)"]) (simp add: wv del: call.simps)
  with v0 wk have v1: "valid (fst s1)" by simp
  have fl: "js_and (flags ?opts) WALK_FILEFIRST = 0" by simp
  have w: "walker ?opts = Function w" by simp
  from recording_walk(1) [OF fl rec w, of "(fs0, Some [])" n "[]"] wk
  obtain V where V: "snd s1 = Some V" "closed_from dest V" by auto
  then obtain fs1 where s1: "s1 = (fs1, Some V)" by (cases s1) simp
  from pr s1 have pw: "walk_impl n [] (prune_options dest) (fs1, Some V) = Ok () s2"
    by (simp add: prune_def)
  from v1 s1 have vf: "valid fs1" by simp
  from prune_walk(1) [of "(fs1, Some V)" V n "[]" dest, rule_format, OF refl vf pw]
  have "s2 = (filter (\<lambda>e. \<not> stale_below V dest (fst e)) fs1, Some V)" by simp
  then have "fst s2 = filter (\<lambda>e. \<not> (strict_prefix dest (fst e) \<and> fst e \<notin> set V)) fs1"
    using stale_below_closed [OF V(2)] by simp
  with prim s1 show ?thesis by blast
qed

section \<open>Recording the calls does not change the walk\<close>

lemma unlogged_bind:
  assumes "\<And>v s. unlogged (k v s) = k' v (unlog s)"
  shows "unlogged (bind r k) = bind (unlogged r) k'"
  using assms by (cases r) simp_all

lemma unlogged_call:
  "unlogged (call (log_arg w) q d s) = call w q d (unlog s)"
  by (cases w) (auto simp: logged_def unlog_def split: result.splits)

lemma js_and_log_arg [simp]: "js_and (log_arg a) m = js_and a m"
  by (cases a) simp_all

lemma with_log_simps [simp]:
  "root (with_log opts) = root opts"
  "flags (with_log opts) = log_arg (flags opts)"
  "walker (with_log opts) = log_arg (walker opts)"
  by (simp_all add: with_log_def)

lemma logged_transparent:
  shows "unlogged (walk_impl n p (with_log opts) s) = walk_impl n p opts (unlog s)"
    and "unlogged (walk_files n p (with_log opts) fs s) = walk_files n p opts fs (unlog s)"
proof (induction n p s and n p fs s rule: walk_induct)
  case (no_fuel p s)
  show ?case by simp
next
  case (listing n p s)
  have "fst (unlog s) = fst s" by (simp add: unlog_def)
  with listing show ?case by (simp split: sum.splits)
next
  case (no_entries n p s)
  show ?case by simp
next
  case (entry n p f rest s)
  let ?c = "join p [name f]"
  have c1: "unlogged (bind (call (walker (with_log opts)) ?c f s1) (\<lambda>v s2. Ok () s2)) =
            bind (call (walker opts) ?c f (unlog s1)) (\<lambda>v s2. Ok () s2)" for s1
    by (subst unlogged_bind [where k' = "\<lambda>v s2. Ok () s2"])
       (simp_all add: unlogged_call del: call.simps)
  have ve: "unlogged (visit_entry n p (with_log opts) f s) = visit_entry n p opts f (unlog s)"
  proof (cases "isDirectory f")
    case False
    with c1 [of s] show ?thesis by (simp add: visit_entry_def)
  next
    case True
    show ?thesis
    proof (cases "js_and (flags opts) WALK_FILEFIRST \<noteq> 0")
      case ff: True
      have "unlogged (bind (walk_impl n ?c (with_log opts) s)
               (\<lambda>u s1. bind (call (walker (with_log opts)) ?c f s1) (\<lambda>v s2. Ok () s2))) =
            bind (unlogged (walk_impl n ?c (with_log opts) s))
               (\<lambda>u s1. bind (call (walker opts) ?c f s1) (\<lambda>v s2. Ok () s2))"
        by (rule unlogged_bind) (rule c1)
      with True ff entry(1) [of ?c s] show ?thesis
        by (simp add: visit_entry_def)
    next
      case nf: False
      have "unlogged (bind (call (walker (with_log opts)) ?c f s)
               (\<lambda>r s1. if r \<noteq> JBool False then walk_impl n ?c (with_log opts) s1 else Ok () s1)) =
            bind (unlogged (call (walker (with_log opts)) ?c f s))
               (\<lambda>r s1. if r \<noteq> JBool False then walk_impl n ?c opts s1 else Ok () s1)"
        by (rule unlogged_bind) (simp add: entry(1))
      with True nf show ?thesis
        by (simp add: visit_entry_def unlogged_call del: call.simps)
    qed
  qed
  have "unlogged (bind (visit_entry n p (with_log opts) f s)
            (\<lambda>u s1. walk_files n p (with_log opts) rest s1)) =
        bind (unlogged (visit_entry n p (with_log opts) f s))
            (\<lambda>u s1. walk_files n p opts rest s1)"
    by (rule unlogged_bind) (rule entry(2))
  with ve show ?case by (simp add: walk_files_Cons)
qed

section \<open>The calls of the reconciliation pass\<close>

lemma logged_prune_call:
  assumes "fst (snd s) = Some V" and "valid (fst s)"
  shows "\<exists>v. trace (final (call (Function (logged (prune_walker dest))) q d s)) = trace s @ [v] \<and>
           v_path v = q \<and> (v_result v \<noteq> None \<longrightarrow> prune_visit dest V v) \<and>
           fst (snd (final (call (Function (logged (prune_walker dest))) q d s))) = Some V \<and>
           valid (fst (final (call (Function (logged (prune_walker dest))) q d s)))"
proof (cases "join dest q \<in> set V")
  case True
  then show ?thesis using assms
    by (simp add: logged_def prune_walker_def trace_def prune_visit_def)
next
  case False
  from remove_valid_cases [OF assms(2), of "join dest q"] show ?thesis
  proof
    assume r: "remove (join dest q) (fst s) = Ok () (filter (\<lambda>e. \<not> below (join dest q) e) (fst s))"
    with valid_remove [OF assms(2), of "join dest q"]
    have "valid (filter (\<lambda>e. \<not> below (join dest q) e) (fst s))" by simp
    with False assms r show ?thesis
      by (simp add: logged_def prune_walker_def trace_def prune_visit_def list_all_iff)
  next
    assume "remove (join dest q) (fst s) = Err ENOTDIR (fst s)"
    with False assms show ?thesis
      by (simp add: logged_def prune_walker_def trace_def)
  qed
qed

lemma prune_log_visits:
  assumes "valid fs1"
    and "log = trace (final (walk_impl n [] (with_log (prune_options dest)) (fs1, Some V, [])))"
  shows "\<forall>a\<in>set log. v_result a \<noteq> None \<longrightarrow> prune_visit dest V a"
proof -
  let ?I = "\<lambda>s :: (path list option \<times> visit list) world.
              fst (snd s) = Some V \<and> valid (fst s) \<and>
              (\<forall>a\<in>set (trace s). v_result a \<noteq> None \<longrightarrow> prune_visit dest V a)"
  let ?s = "(fs1, Some V, []) :: (path list option \<times> visit list) world"
  have "?I ?s \<longrightarrow> ?I (final (walk_impl n [] (with_log (prune_options dest)) ?s))"
  proof (rule walk_invariant(1) [where I = ?I])
    fix q d and s :: "(path list option \<times> visit list) world"
    assume I: "?I s"
    then have "fst (snd s) = Some V" "valid (fst s)" by simp_all
    from logged_prune_call [OF this, of dest q d] I
    show "?I (final (call (walker (with_log (prune_options dest))) q d s))"
      by (auto simp: prune_options_def)
  qed
  moreover have "?I ?s" using assms(1) by (simp add: trace_def)
  ultimately show ?thesis using assms(2) by simp
qed

section \<open>The files of an exclusive copy\<close>

lemma copyFile_Ok:
  assumes "copyFile s d False fs = Ok u fs'" and "\<forall>t. lookup fs d \<noteq> Some (Symlink t)"
  shows "\<exists>c. stat fs s = Inr (File c) \<and> fs' = put d (File c) fs \<and> d \<noteq> [] \<and>
           (lookup fs d = None \<or> (\<exists>c0. lookup fs d = Some (File c0)))"
proof -
  from assms(2) have wt: "write_target 40 fs d = Inr d" by (simp add: write_target_plain)
  from assms(1) obtain c where c: "stat fs s = Inr (File c)" and wf: "write_file d c fs = Ok u fs'"
    using wt by (auto simp: copyFile_def split: sum.splits node.splits)
  from wf have "fs' = put d (File c) fs \<and> d \<noteq> [] \<and>
      (lookup fs d = None \<or> (\<exists>c0. lookup fs d = Some (File c0)))"
    by (auto simp: write_file_def create_def split: option.splits node.splits)
  with c show ?thesis by blast
qed

lemma mkdir_fresh_no_links:
  assumes "valid fs" "mkdir dest False fs = Ok () fs0"
  shows "no_links_below dest fs0"
proof -
  from assms(2) have ab: "lookup fs dest = None" and fs0: "fs0 = put dest Directory fs"
    by (auto simp: mkdir_def create_def split: option.splits node.splits)
  show ?thesis
    unfolding no_links_below_def fs0
  proof (intro allI impI)
    fix q t assume "prefix dest q"
    then obtain r where "q = dest @ r" by (auto simp: prefix_def)
    with assms(1) ab have "lookup fs q = None" by (simp add: valid_absent_below)
    then show "lookup (put dest Directory fs) q \<noteq> Some (Symlink t)"
      by (auto simp: lookup_put)
  qed
qed

lemma bound_outside:
  assumes "valid fs0" "lookup fs0 dest = None" "lookup fs0 x \<noteq> None"
  shows "\<not> prefix dest x"
proof
  assume "prefix dest x"
  then obtain r where "x = dest @ r" by (auto simp: prefix_def)
  with assms(1,2) have "lookup fs0 x = None" by (simp add: valid_absent_below)
  with assms(3) show False by simp
qed

lemma kept_bound:
  assumes "valid fs0" "lookup fs0 dest = None" "kept_outside dest fs0 fs" "lookup fs0 x \<noteq> None"
  shows "lookup fs x = lookup fs0 x"
  using bound_outside [OF assms(1,2,4)] assms(3) unfolding kept_outside_def by blast

lemma follow_kept:
  assumes "valid fs0" "lookup fs0 dest = None" "kept_outside dest fs0 fs"
  shows "follow k fs0 x = Inr r \<Longrightarrow> follow k fs x = Inr r"
proof (induction k arbitrary: x)
  case 0
  then show ?case by simp
next
  case (Suc k)
  from Suc.prems obtain n where n: "lookup fs0 x = Some n"
    by (cases "lookup fs0 x") auto
  then have same: "lookup fs x = Some n" using kept_bound [OF assms, of x] by simp
  show ?case
  proof (cases n)
    case (Symlink t)
    with n Suc.prems have "follow k fs0 t = Inr r" by simp
    from Suc.IH [OF this] same Symlink show ?thesis by simp
  qed (use n same Suc.prems in simp_all)
qed

lemma stat_kept:
  assumes "valid fs0" "lookup fs0 dest = None" "kept_outside dest fs0 fs"
    and "stat fs0 x = Inr n"
  shows "stat fs x = Inr n"
proof -
  from assms(4) obtain q where "follow 40 fs0 x = Inr (q, n)"
    by (auto simp: stat_def split: sum.splits)
  from follow_kept [OF assms(1,2,3) this] show ?thesis by (simp add: stat_def)
qed

lemma copy_walker_local:
  "snd (final (call (Function (copy_walker src dest r)) q d s)) = push (snd s) (join dest q)"
  by (simp add: copy_walker_def Let_def lifted_local)

lemma copy_walker_result:
  "call (Function (copy_walker src dest r)) q d s = Ok res s1 \<Longrightarrow> res = JUndefined"
  by (auto simp: copy_walker_def Let_def bind_case split: result.splits)

lemma copy_walker_one:
  assumes "no_links_below dest (fst s)" "x \<noteq> join dest q"
  shows "lookup (fst (final (call (Function (copy_walker src dest False)) q d s))) x = lookup (fst s) x"
proof -
  let ?p = "join dest q"
  let ?op = "if isDirectory d then mkdir ?p False (fst s) else copyFile (join src q) ?p False (fst s)"
  have pd: "prefix dest ?p" by (simp add: join_def)
  have fin: "fst (final (call (Function (copy_walker src dest False)) q d s)) = final ?op"
    by (cases ?op) (simp_all add: copy_walker_def Let_def)
  from assms(1) pd have nl: "\<forall>t. lookup (fst s) ?p \<noteq> Some (Symlink t)"
    unfolding no_links_below_def by blast
  have "final ?op = fst s \<or> (\<exists>n. final ?op = put ?p n (fst s))"
  proof (cases "isDirectory d")
    case True
    then show ?thesis using mkdir_plain_final [of ?p "fst s"] by auto
  next
    case False
    then show ?thesis using copyFile_final [OF nl, of "join src q"] by auto
  qed
  then show ?thesis unfolding fin using assms(2) by (auto simp: lookup_put)
qed

lemma copy_walker_no_links:
  assumes "no_links_below dest (fst s)"
  shows "no_links_below dest (fst (final (call (Function (copy_walker src dest False)) q d s)))"
proof -
  have "kept_outside dest (fst s) (fst s) \<and> no_links_below dest (fst s)"
    using assms by (simp add: kept_outside_def)
  from copy_walker_frame [OF this] show ?thesis by simp
qed

lemma copy_visit_frame:
  assumes o: "opts = \<lparr>root = src, flags = Undefined, walker = Function (copy_walker src dest False)\<rparr>"
    and nl: "no_links_below dest (fst s)"
    and IH: "\<And>q s1. no_links_below dest (fst s1) \<Longrightarrow>
               no_links_below dest (fst (final (walk_impl n q opts s1))) \<and>
               (\<forall>r. \<not> strict_prefix (dest @ q) r \<longrightarrow>
                  lookup (fst (final (walk_impl n q opts s1))) r = lookup (fst s1) r)"
  shows "no_links_below dest (fst (final (visit_entry n p opts f s))) \<and>
         (\<forall>r. \<not> prefix (dest @ p @ [name f]) r \<longrightarrow>
            lookup (fst (final (visit_entry n p opts f s))) r = lookup (fst s) r)"
proof -
  let ?c = "join p [name f]"
  let ?r = "call (Function (copy_walker src dest False)) ?c f s"
  have jc: "join dest ?c = dest @ p @ [name f]" by (simp add: join_def)
  have nl1: "no_links_below dest (fst (final ?r))" using nl by (rule copy_walker_no_links)
  have one: "lookup (fst (final ?r)) r = lookup (fst s) r" if "\<not> prefix (dest @ p @ [name f]) r" for r
  proof -
    from that have "r \<noteq> join dest ?c" unfolding jc by auto
    with nl show ?thesis by (rule copy_walker_one)
  qed
  show ?thesis
  proof (cases ?r)
    case (Err e s1)
    then have "visit_entry n p opts f s = Err e s1" by (simp add: visit_entry_def o)
    with Err nl1 one show ?thesis by simp
  next
    case (Ok res s1)
    then have res: "res = JUndefined" by (rule copy_walker_result)
    show ?thesis
    proof (cases "isDirectory f")
      case False
      with Ok have "visit_entry n p opts f s = Ok () s1" by (simp add: visit_entry_def o)
      with Ok nl1 one show ?thesis by simp
    next
      case True
      with Ok res have ve: "visit_entry n p opts f s = walk_impl n ?c opts s1"
        by (simp add: visit_entry_def o)
      from Ok nl1 have "no_links_below dest (fst s1)" by simp
      from IH [OF this, of ?c]
      have a: "no_links_below dest (fst (final (walk_impl n ?c opts s1)))"
        and b: "\<forall>r. \<not> strict_prefix (dest @ ?c) r \<longrightarrow>
                  lookup (fst (final (walk_impl n ?c opts s1))) r = lookup (fst s1) r"
        by blast+
      have "lookup (fst (final (walk_impl n ?c opts s1))) r = lookup (fst s) r"
        if np: "\<not> prefix (dest @ p @ [name f]) r" for r
      proof -
        from np have "\<not> strict_prefix (dest @ ?c) r" by (simp add: join_def strict_prefix_def)
        with b have "lookup (fst (final (walk_impl n ?c opts s1))) r = lookup (fst s1) r" by blast
        with one [OF np] Ok show ?thesis by simp
      qed
      with a ve show ?thesis by simp
    qed
  qed
qed

lemma copy_walk_frame:
  assumes o: "opts = \<lparr>root = src, flags = Undefined, walker = Function (copy_walker src dest False)\<rparr>"
  shows "no_links_below dest (fst s) \<longrightarrow>
           no_links_below dest (fst (final (walk_impl n p opts s))) \<and>
           (\<forall>r. \<not> strict_prefix (dest @ p) r \<longrightarrow>
              lookup (fst (final (walk_impl n p opts s))) r = lookup (fst s) r)"
    and "no_links_below dest (fst s) \<longrightarrow>
           no_links_below dest (fst (final (walk_files n p opts fs s))) \<and>
           (\<forall>r. (\<forall>f\<in>set fs. \<not> prefix (dest @ p @ [name f]) r) \<longrightarrow>
              lookup (fst (final (walk_files n p opts fs s))) r = lookup (fst s) r)"
proof (induction n p s and n p fs s rule: walk_induct)
  case (no_fuel p s)
  show ?case by simp
next
  case (listing n p s)
  show ?case
  proof (cases "readdir (fst s) (join (root opts) p)")
    case (Inl e)
    then show ?thesis by simp
  next
    case (Inr files)
    show ?thesis
    proof (intro impI conjI allI)
      assume nl: "no_links_below dest (fst s)"
      with listing [of s files] Inr
      show "no_links_below dest (fst (final (walk_impl (Suc n) p opts s)))" by simp
      fix r assume "\<not> strict_prefix (dest @ p) r"
      then have "\<forall>f\<in>set files. \<not> prefix (dest @ p @ [name f]) r"
        by (auto simp: prefix_def strict_prefix_def)
      with listing [of s files] nl Inr
      show "lookup (fst (final (walk_impl (Suc n) p opts s))) r = lookup (fst s) r" by simp
    qed
  qed
next
  case (no_entries n p s)
  show ?case by simp
next
  case (entry n p f rest s)
  show ?case
  proof (intro impI)
    assume nl: "no_links_below dest (fst s)"
    have IH1: "\<And>q s1. no_links_below dest (fst s1) \<Longrightarrow>
               no_links_below dest (fst (final (walk_impl n q opts s1))) \<and>
               (\<forall>r. \<not> strict_prefix (dest @ q) r \<longrightarrow>
                  lookup (fst (final (walk_impl n q opts s1))) r = lookup (fst s1) r)"
      using entry(1) by blast
    from copy_visit_frame [OF o nl IH1, of p f]
    have a: "no_links_below dest (fst (final (visit_entry n p opts f s)))"
      and b: "\<forall>r. \<not> prefix (dest @ p @ [name f]) r \<longrightarrow>
            lookup (fst (final (visit_entry n p opts f s))) r = lookup (fst s) r"
      by blast+
    show "no_links_below dest (fst (final (walk_files n p opts (f # rest) s))) \<and>
           (\<forall>r. (\<forall>g\<in>set (f # rest). \<not> prefix (dest @ p @ [name g]) r) \<longrightarrow>
              lookup (fst (final (walk_files n p opts (f # rest) s))) r = lookup (fst s) r)"
    proof (cases "visit_entry n p opts f s")
      case (Err e s1)
      with a b show ?thesis by (simp add: walk_files_Cons)
    next
      case (Ok u s1)
      with a have "no_links_below dest (fst s1)" by simp
      with entry(2) [of s1]
      have c: "no_links_below dest (fst (final (walk_files n p opts rest s1)))"
        and d: "\<forall>r. (\<forall>g\<in>set rest. \<not> prefix (dest @ p @ [name g]) r) \<longrightarrow>
              lookup (fst (final (walk_files n p opts rest s1))) r = lookup (fst s1) r"
        by blast+
      from Ok b have b': "\<forall>r. \<not> prefix (dest @ p @ [name f]) r \<longrightarrow> lookup (fst s1) r = lookup (fst s) r"
        by simp
      from c d b' Ok show ?thesis by (simp add: walk_files_Cons)
    qed
  qed
qed

lemma recorded_kept:
  assumes o: "opts = \<lparr>root = src, flags = Undefined, walker = Function (copy_walker src dest r)\<rparr>"
  shows "(\<forall>V. snd s = Some V \<longrightarrow> x \<in> set V) \<longrightarrow>
         (\<forall>V. snd (final (walk_files n p opts fs s)) = Some V \<longrightarrow> x \<in> set V)"
proof (rule walk_invariant(2) [where I = "\<lambda>s. \<forall>V. snd s = Some V \<longrightarrow> x \<in> set V"])
  fix q d and s :: "path list option world"
  assume a: "\<forall>V. snd s = Some V \<longrightarrow> x \<in> set V"
  have "snd (final (call (walker opts) q d s)) = push (snd s) (join dest q)"
    unfolding o by (simp add: copy_walker_local del: call.simps)
  with a show "\<forall>V. snd (final (call (walker opts) q d s)) = Some V \<longrightarrow> x \<in> set V"
    by (cases "snd s") auto
qed

lemma copy_walker_kept:
  assumes "kept_outside dest fs0 (fst s)" "no_links_below dest (fst s)"
  shows "kept_outside dest fs0 (fst (final (call (Function (copy_walker src dest False)) q d s)))"
  using copy_walker_frame [of dest fs0 s src q d] assms by simp

lemma copy_visit_copies:
  assumes o: "opts = \<lparr>root = src, flags = Undefined, walker = Function (copy_walker src dest False)\<rparr>"
    and v0: "valid fs0" and ab: "lookup fs0 dest = None"
    and ko: "kept_outside dest fs0 (fst s)" and nl: "no_links_below dest (fst s)"
    and kf: "\<forall>n. lookup fs0 (src @ p @ [name f]) = Some n \<longrightarrow> kind f = kind_of n"
    and IH: "\<And>q s1 u s'. kept_outside dest fs0 (fst s1) \<Longrightarrow> no_links_below dest (fst s1) \<Longrightarrow>
               walk_impl n q opts s1 = Ok u s' \<Longrightarrow>
               (\<forall>t c. t \<noteq> [] \<longrightarrow> stat fs0 (src @ q @ t) = Inr (File c) \<longrightarrow> copied dest s' (q @ t) c)"
    and ok: "visit_entry n p opts f s = Ok u s'"
    and src: "stat fs0 (src @ p @ [name f] @ q) = Inr (File c)"
  shows "copied dest s' (p @ [name f] @ q) c"
proof -
  let ?c = "join p [name f]"
  let ?r = "call (Function (copy_walker src dest False)) ?c f s"
  from ok obtain res s1 where call: "?r = Ok res s1"
    by (cases ?r) (auto simp: visit_entry_def o split: if_splits)
  then have res: "res = JUndefined" by (rule copy_walker_result)
  from call copy_walker_kept [OF ko nl, of src ?c f] copy_walker_no_links [OF nl, of src ?c f]
  have J1: "kept_outside dest fs0 (fst s1)" "no_links_below dest (fst s1)" by simp_all
  show ?thesis
  proof (cases "q = []")
    case True
    with src have st: "stat fs0 (src @ p @ [name f]) = Inr (File c)" by simp
    then have "lookup fs0 (src @ p @ [name f]) \<noteq> None"
      "lookup fs0 (src @ p @ [name f]) \<noteq> Some Directory"
      by (rule stat_bound, rule stat_not_directory)
    with kf have nd: "\<not> isDirectory f"
      by (cases "lookup fs0 (src @ p @ [name f])")
         (auto simp: isDirectory_def elim: kind_of.elims)
    with call ok have s': "s' = s1" by (simp add: visit_entry_def o)
    let ?d = "join dest ?c"
    let ?cf = "copyFile (join src ?c) ?d False (fst s)"
    from call nd obtain fs' where cf: "?cf = Ok () fs'" and s1: "s1 = (fs', push (snd s) ?d)"
      by (cases ?cf) (auto simp: copy_walker_def Let_def)
    from nl have "\<forall>t. lookup (fst s) ?d \<noteq> Some (Symlink t)"
      unfolding no_links_below_def by (simp add: join_def)
    from copyFile_Ok [OF cf this] obtain c' where
      c': "stat (fst s) (join src ?c) = Inr (File c')" "fs' = put ?d (File c') (fst s)" "?d \<noteq> []"
      by blast
    from stat_kept [OF v0 ab ko st] have "stat (fst s) (join src ?c) = Inr (File c)"
      by (simp add: join_def)
    with c'(1) have "c' = c" by simp
    with c'(2,3) have "lookup fs' ?d = Some (File c)" by (simp add: lookup_put)
    moreover have "\<forall>V. push (snd s) ?d = Some V \<longrightarrow> ?d \<in> set V"
      by (cases "snd s") auto
    ultimately show ?thesis using s' s1 True by (simp add: copied_def join_def)
  next
    case False
    from src have "lookup fs0 ((src @ p @ [name f]) @ q) \<noteq> None"
      using stat_bound [of fs0 "src @ p @ [name f] @ q"] by simp
    from valid_ancestor [OF v0 this False]
    have "lookup fs0 (src @ p @ [name f]) = Some Directory" .
    with kf have dir: "isDirectory f" by (simp add: isDirectory_def)
    with call res ok have "walk_impl n ?c opts s1 = Ok u s'" by (simp add: visit_entry_def o)
    from IH [OF J1 this] False src show ?thesis by (simp add: join_def)
  qed
qed

lemma copy_walk_copies:
  assumes o: "opts = \<lparr>root = src, flags = Undefined, walker = Function (copy_walker src dest False)\<rparr>"
    and v0: "valid fs0" and ab: "lookup fs0 dest = None"
  shows "\<forall>u s'. kept_outside dest fs0 (fst s) \<longrightarrow> no_links_below dest (fst s) \<longrightarrow>
           walk_impl n p opts s = Ok u s' \<longrightarrow>
           (\<forall>q c. q \<noteq> [] \<longrightarrow> stat fs0 (src @ p @ q) = Inr (File c) \<longrightarrow> copied dest s' (p @ q) c)"
    and "\<forall>u s'. kept_outside dest fs0 (fst s) \<longrightarrow> no_links_below dest (fst s) \<longrightarrow>
           distinct (map name fs) \<longrightarrow>
           (\<forall>f\<in>set fs. \<forall>n. lookup fs0 (src @ p @ [name f]) = Some n \<longrightarrow> kind f = kind_of n) \<longrightarrow>
           walk_files n p opts fs s = Ok u s' \<longrightarrow>
           (\<forall>f\<in>set fs. \<forall>q c. stat fs0 (src @ p @ [name f] @ q) = Inr (File c) \<longrightarrow>
              copied dest s' (p @ [name f] @ q) c)"
proof (induction n p s and n p fs s rule: walk_induct)
  case (no_fuel p s)
  show ?case by simp
next
  case (listing n p s)
  show ?case
  proof (intro allI impI)
    fix u s' q c
    assume ko: "kept_outside dest fs0 (fst s)" and nl: "no_links_below dest (fst s)"
      and ok: "walk_impl (Suc n) p opts s = Ok u s'"
      and q: "q \<noteq> []" and st: "stat fs0 (src @ p @ q) = Inr (File c)"
    have rt: "join (root opts) p = src @ p" by (simp add: o join_def)
    from ok rt obtain files where files: "readdir (fst s) (src @ p) = Inr files"
      by (cases "readdir (fst s) (src @ p)") auto
    with ok rt have wf: "walk_files n p opts files s = Ok u s'" by simp
    have d: "distinct (map name files)" using files by (rule readdir_distinct)
    have k: "\<forall>f\<in>set files. \<forall>m. lookup fs0 (src @ p @ [name f]) = Some m \<longrightarrow> kind f = kind_of m"
    proof (intro ballI allI impI)
      fix f m assume f: "f \<in> set files" and m: "lookup fs0 (src @ p @ [name f]) = Some m"
      from listing_entry [OF files f] obtain m' where
        m': "lookup (fst s) ((src @ p) @ [name f]) = Some m'" "kind f = kind_of m'" by blast
      from kept_bound [OF v0 ab ko, of "src @ p @ [name f]"] m
      have "lookup (fst s) (src @ p @ [name f]) = Some m" by simp
      with m' show "kind f = kind_of m" by simp
    qed
    from q obtain x t where xt: "q = x # t" by (cases q) auto
    from st have bq: "lookup fs0 ((src @ p @ [x]) @ t) \<noteq> None"
      using stat_bound [of fs0 "src @ p @ q"] xt by simp
    have bx: "lookup fs0 (src @ p @ [x]) \<noteq> None"
    proof (cases "t = []")
      case True
      with bq show ?thesis by simp
    next
      case False
      with v0 bq have "lookup fs0 (src @ p @ [x]) = Some Directory" by (rule valid_ancestor)
      then show ?thesis by simp
    qed
    with kept_bound [OF v0 ab ko, of "src @ p @ [x]"]
    have "lookup (fst s) ((src @ p) @ [x]) \<noteq> None" by simp
    with files have "x \<in> name ` set files" by (rule listing_has)
    then obtain f where f: "f \<in> set files" "name f = x" by auto
    note L = listing [of s files, THEN spec, THEN spec, THEN mp, OF ko, THEN mp, OF nl,
        THEN mp, OF d, THEN mp, OF k, THEN mp, OF wf]
    from L f(1) have "\<forall>q c. stat fs0 (src @ p @ [name f] @ q) = Inr (File c) \<longrightarrow>
              copied dest s' (p @ [name f] @ q) c" by (rule bspec)
    then have "stat fs0 (src @ p @ [name f] @ t) = Inr (File c) \<longrightarrow>
              copied dest s' (p @ [name f] @ t) c" by (elim allE)
    with st xt f(2) show "copied dest s' (p @ q) c" by simp
  qed
next
  case (no_entries n p s)
  show ?case by simp
next
  case (entry n p f rest s)
  show ?case
  proof (intro allI impI ballI)
    fix u s' g q c
    assume ko: "kept_outside dest fs0 (fst s)" and nl: "no_links_below dest (fst s)"
      and d: "distinct (map name (f # rest))"
      and k: "\<forall>f\<in>set (f # rest). \<forall>n. lookup fs0 (src @ p @ [name f]) = Some n \<longrightarrow> kind f = kind_of n"
      and ok: "walk_files n p opts (f # rest) s = Ok u s'"
      and g: "g \<in> set (f # rest)"
      and st: "stat fs0 (src @ p @ [name g] @ q) = Inr (File c)"
    from ok obtain u1 s1 where s1: "visit_entry n p opts f s = Ok u1 s1"
      "walk_files n p opts rest s1 = Ok u s'"
      by (cases "visit_entry n p opts f s") (auto simp: walk_files_Cons)
    let ?J = "\<lambda>s :: path list option world. kept_outside dest fs0 (fst s) \<and> no_links_below dest (fst s)"
    have "?J (final (visit_entry n p opts f s))"
    proof (rule visit_entry_invariant [where I = ?J])
      fix q d and s :: "path list option world"
      assume "?J s"
      then show "?J (final (call (walker opts) q d s))"
        using copy_walker_frame [of dest fs0 s src q d] by (simp add: o)
    qed (use ko nl in simp)
    with s1(1) have J1: "kept_outside dest fs0 (fst s1)" "no_links_below dest (fst s1)" by simp_all
    have IH1: "\<And>q s1 u s'. kept_outside dest fs0 (fst s1) \<Longrightarrow> no_links_below dest (fst s1) \<Longrightarrow>
               walk_impl n q opts s1 = Ok u s' \<Longrightarrow>
               (\<forall>t c. t \<noteq> [] \<longrightarrow> stat fs0 (src @ q @ t) = Inr (File c) \<longrightarrow> copied dest s' (q @ t) c)"
      using entry(1) by blast
    show "copied dest s' (p @ [name g] @ q) c"
    proof (cases "g \<in> set rest")
      case True
      from d have d1: "distinct (map name rest)" by simp
      from k have k1: "\<forall>f\<in>set rest. \<forall>n. lookup fs0 (src @ p @ [name f]) = Some n \<longrightarrow> kind f = kind_of n"
        by simp
      note L = entry(2) [of s1, THEN spec, THEN spec, THEN mp, OF J1(1), THEN mp, OF J1(2),
          THEN mp, OF d1, THEN mp, OF k1, THEN mp, OF s1(2)]
      from L True have "\<forall>q c. stat fs0 (src @ p @ [name g] @ q) = Inr (File c) \<longrightarrow>
              copied dest s' (p @ [name g] @ q) c" by (rule bspec)
      then have "stat fs0 (src @ p @ [name g] @ q) = Inr (File c) \<longrightarrow>
              copied dest s' (p @ [name g] @ q) c" by (elim allE)
      with st show ?thesis by simp
    next
      case False
      with g have gf: "g = f" by simp
      from k have kf: "\<forall>n. lookup fs0 (src @ p @ [name f]) = Some n \<longrightarrow> kind f = kind_of n" by simp
      from st gf have st': "stat fs0 (src @ p @ [name f] @ q) = Inr (File c)" by simp
      have c1: "copied dest s1 (p @ [name f] @ q) c"
        by (rule copy_visit_copies [OF o v0 ab ko nl kf _ s1(1) st']) (rule IH1)
      let ?x = "dest @ p @ [name f] @ q"
      have away: "\<forall>h\<in>set rest. \<not> prefix (dest @ p @ [name h]) ?x"
      proof
        fix h assume h: "h \<in> set rest"
        then have "name h \<in> name ` set rest" by (rule imageI)
        with d have ne: "name h \<noteq> name f" by auto
        show "\<not> prefix (dest @ p @ [name h]) ?x"
        proof
          assume "prefix (dest @ p @ [name h]) ?x"
          then have "prefix ((dest @ p) @ [name h]) ((dest @ p) @ name f # q)" by simp
          then have "prefix [name h] (name f # q)" by (simp only: same_prefix_prefix)
          with ne show False by simp
        qed
      qed
      from copy_walk_frame(2) [OF o, of s1 n p rest, THEN mp, OF J1(2), THEN conjunct2]
      have "(\<forall>h\<in>set rest. \<not> prefix (dest @ p @ [name h]) ?x) \<longrightarrow>
              lookup (fst (final (walk_files n p opts rest s1))) ?x = lookup (fst s1) ?x"
        by (rule spec)
      with away s1(2) have l: "lookup (fst s') ?x = lookup (fst s1) ?x" by simp
      from c1 have r1: "\<forall>V. snd s1 = Some V \<longrightarrow> ?x \<in> set V" by (simp add: copied_def)
      from recorded_kept [OF o, of s1 ?x n p rest] r1
      have "\<forall>V. snd (final (walk_files n p opts rest s1)) = Some V \<longrightarrow> ?x \<in> set V" by (rule mp)
      with s1(2) have r: "\<forall>V. snd s' = Some V \<longrightarrow> ?x \<in> set V" by simp
      from c1 have "lookup (fst s1) ?x = Some (File c)" by (simp add: copied_def)
      with l r gf show ?thesis by (simp add: copied_def)
    qed
  qed
qed

lemma local_none_kept:
  assumes o: "opts = \<lparr>root = src, flags = Undefined, walker = Function (copy_walker src dest r)\<rparr>"
  shows "snd s = None \<longrightarrow> snd (final (walk_impl n p opts s)) = None"
proof (rule walk_invariant(1) [where I = "\<lambda>s. snd s = None"])
  fix q d and s :: "path list option world"
  assume "snd s = None"
  then show "snd (final (call (walker opts) q d s)) = None"
    unfolding o by (simp add: copy_walker_local del: call.simps)
qed

lemma copy_exclusive_duplicates:
  assumes ex: "flag_set fl COPY_EXCL" and v: "valid fs" and sd: "stat fs src = Inr Directory"
    and ok: "copy n src dest fl fs = Ok () fs'"
    and st: "stat fs (src @ q) = Inr (File c)"
  shows "lookup fs' (dest @ q) = Some (File c)"
proof -
  let ?ep = "(if flag_set fl COPY_RMNONEXISTENT then Some [] else None) :: path list option"
  let ?opts = "\<lparr>root = src, flags = Undefined, walker = Function (copy_walker src dest False)\<rparr>"
  from sd ok have ci: "copy_impl n src dest fl fs = Ok () fs'" by (simp add: copy_def)
  from sd st have q: "q \<noteq> []" by auto
  obtain fsm where mk: "mkdir dest False fs = Ok () fsm"
    using ci ex by (cases "mkdir dest False fs") (auto simp: copy_impl_def copy_primary_def)
  then have ab: "lookup fs dest = None" and fsm: "fsm = put dest Directory fs"
    by (auto simp: mkdir_def create_def split: option.splits node.splits)
  have prim: "copy_primary n src dest fl fs = walk_impl n [] ?opts (fsm, ?ep)"
    using mk ex by (simp add: copy_primary_def)
  from ci prim obtain u1 s1 where w1: "walk_impl n [] ?opts (fsm, ?ep) = Ok u1 s1"
    by (cases "walk_impl n [] ?opts (fsm, ?ep)") (auto simp: copy_impl_def)
  with ci prim have pr: "drop_local (prune n dest s1) = Ok () fs'" by (simp add: copy_impl_def)
  have ko: "kept_outside dest fs (fst (fsm, ?ep))"
    unfolding kept_outside_def fsm by (auto simp: lookup_put)
  have nl: "no_links_below dest (fst (fsm, ?ep))"
    using mkdir_fresh_no_links [OF v mk] by simp
  note M = copy_walk_copies(1) [where opts = ?opts and s = "(fsm, ?ep)" and n = n and p = "[]",
      OF refl v ab, THEN spec, THEN spec, THEN mp, OF ko, THEN mp, OF nl, THEN mp, OF w1]
  then have "q \<noteq> [] \<longrightarrow> stat fs (src @ [] @ q) = Inr (File c) \<longrightarrow> copied dest s1 ([] @ q) c"
    by (elim allE)
  with q st have cp: "copied dest s1 q c" by simp
  show ?thesis
  proof (cases "flag_set fl COPY_RMNONEXISTENT")
    case False
    with local_none_kept [where opts = ?opts and s = "(fsm, ?ep)" and n = n and p = "[]", OF refl] w1
    have "snd s1 = None" by simp
    with pr have "fs' = fst s1" by (simp add: prune_def)
    with cp show ?thesis by (simp add: copied_def)
  next
    case True
    have b: "bind (bind (lift (Some []) (mkdir dest False fs))
                 (\<lambda>u s. walk_impl n [] ?opts s)) (\<lambda>u s. prune n dest s) = Ok () (final (prune n dest s1))"
      using mk w1 True pr by (cases "prune n dest s1") simp_all
    from mirror_reconciled [OF v copy_walker_records copy_walker_valid b] mk w1 True
    obtain fs1 V where s1: "s1 = (fs1, Some V)"
      and f: "fst (final (prune n dest s1)) = filter (\<lambda>e. \<not> (strict_prefix dest (fst e) \<and> fst e \<notin> set V)) fs1"
      by auto
    from pr have "fs' = fst (final (prune n dest s1))" by (cases "prune n dest s1") simp_all
    with f have fs': "fs' = filter (\<lambda>e. \<not> (strict_prefix dest (fst e) \<and> fst e \<notin> set V)) fs1" by simp
    from cp s1 have "lookup fs1 (dest @ q) = Some (File c)" "dest @ q \<in> set V"
      by (simp_all add: copied_def)
    then show ?thesis
      unfolding fs'
      using lookup_filter [of "\<lambda>q. \<not> (strict_prefix dest q \<and> q \<notin> set V)" fs1 "dest @ q"] q
      by simp
  qed
qed

section \<open>Mirrors that prune\<close>






section \<open>Pre-order walks\<close>

lemma ex_walk_pre:
  "walk 3 [''t''] Undefined (Function (logged ex_walker)) (ex_tree, (), []) =
     Ok () (ex_tree, (),
       [ex_visit [''f1''] ''f1'' KFile JUndefined,
        ex_visit [''p1''] ''p1'' KDirectory (JBool False),
        ex_visit [''p2''] ''p2'' KDirectory JUndefined,
        ex_visit [''p2'', ''p2f1''] ''p2f1'' KFile JUndefined])"
  by code_simp

text \<open>
  C2. In a pre-order walk (the flags are not a function and lack the \<open>fileFirst\<close> bit),
  take any call of the walker on a directory entry. If it returned exactly \<open>false\<close>, no
  call of the whole walk is for a path strictly below that directory. If it returned
  anything else and the walk resolved, the directory was listed in the state the call
  left and every entry of that listing has its own call.
\<close>

theorem walk_pre_order_false_skips:
  assumes "\<not> is_function fl" and "js_and fl WALK_FILEFIRST = 0"
    and "log = trace (final (walk n rt fl (Function (logged w)) (fs, u, [])))"
    and "a \<in> set log" and "isDirectory (v_entry a)"
  shows "(v_result a = Some (JBool False) \<longrightarrow>
            (\<forall>b\<in>set log. \<not> strict_prefix (v_path a) (v_path b))) \<and>
         ((\<exists>r. v_result a = Some r \<and> r \<noteq> JBool False) \<longrightarrow>
          (\<exists>s'. walk n rt fl (Function (logged w)) (fs, u, []) = Ok () s') \<longrightarrow>
            (\<exists>files. readdir (v_after a) (join rt (v_path a)) = Inr files \<and>
               (\<forall>f\<in>set files. \<exists>b\<in>set log. v_path b = v_path a @ [name f] \<and> v_entry b = f)))"
proof -
  let ?opts = "\<lparr>root = rt, flags = fl, walker = Function (logged w)\<rparr>"
  let ?s = "(fs, u, []::visit list)"
  have wk: "walk n rt fl (Function (logged w)) ?s = walk_impl n [] ?opts ?s"
    using assms(1) by (simp add: walk_def)
  have fl: "js_and (flags ?opts) WALK_FILEFIRST = 0" using assms(2) by simp
  have w: "walker ?opts = Function (logged w)" by simp
  have tr: "trace ?s = []" by (simp add: trace_def)
  from pre_order_trace(1) [OF fl w, of n "[]" ?s] tr wk assms(3)
  have pt: "pre_tree log" by auto
  have skip: "\<not> strict_prefix (v_path a) (v_path b)"
    if "v_result a = Some (JBool False)" "b \<in> set log" for b
  proof
    assume "strict_prefix (v_path a) (v_path b)"
    with pt assms(4) that(2) have "descended a" unfolding pre_tree_def by blast
    with that(1) show False by (simp add: descended_def)
  qed
  have desc: "\<exists>files. readdir (v_after a) (join rt (v_path a)) = Inr files \<and>
               (\<forall>f\<in>set files. \<exists>b\<in>set log. v_path b = v_path a @ [name f] \<and> v_entry b = f)"
    if r: "\<exists>r. v_result a = Some r \<and> r \<noteq> JBool False"
      and ok: "walk n rt fl (Function (logged w)) ?s = Ok () s'" for s'
  proof -
    from ok wk have "walk_impl n [] ?opts ?s = Ok () s'" by simp
    with pre_order_complete(1) [OF fl w, of n "[]" ?s] tr
    obtain xs where xs: "trace s' = xs" "descents (root ?opts) xs" by auto
    from ok assms(3) xs(1) have "log = xs" by simp
    with xs(2) have "descents rt log" by simp
    moreover from r assms(5) have "descended a" by (simp add: descended_def)
    ultimately show ?thesis using assms(4) unfolding descents_def listed_def by blast
  qed
  from skip desc show ?thesis by blast
qed

theorem walk_pre_order_false_skips_witness:
  "ex_visit [''p1''] ''p1'' KDirectory (JBool False)
     \<in> set (trace (final (walk 3 [''t''] Undefined (Function (logged ex_walker)) (ex_tree, (), [])))) \<and>
   \<not> (\<exists>b\<in>set (trace (final (walk 3 [''t''] Undefined (Function (logged ex_walker)) (ex_tree, (), [])))).
        strict_prefix [''p1''] (v_path b)) \<and>
   ex_visit [''p2''] ''p2'' KDirectory JUndefined
     \<in> set (trace (final (walk 3 [''t''] Undefined (Function (logged ex_walker)) (ex_tree, (), [])))) \<and>
   (\<exists>files. readdir ex_tree (join [''t''] [''p2'']) = Inr files \<and>
      \<not> (\<exists>f\<in>set files. \<not> (\<exists>b\<in>set (trace (final (walk 3 [''t''] Undefined
              (Function (logged ex_walker)) (ex_tree, (), [])))).
            v_path b = [''p2''] @ [name f] \<and> v_entry b = f)))"
proof -
  let ?log = "trace (final (walk 3 [''t''] Undefined (Function (logged ex_walker)) (ex_tree, (), [])))"
  let ?a = "ex_visit [''p1''] ''p1'' KDirectory (JBool False)"
  let ?b = "ex_visit [''p2''] ''p2'' KDirectory JUndefined"
  have h1: "\<not> is_function (Undefined :: (unit \<times> visit list) jsarg)" by simp
  have h2: "js_and (Undefined :: (unit \<times> visit list) jsarg) WALK_FILEFIRST = 0" by simp
  have h3: "?log = ?log" by simp
  have a: "?a \<in> set ?log" by (simp add: ex_walk_pre trace_def)
  have b: "?b \<in> set ?log" by (simp add: ex_walk_pre trace_def)
  have da: "isDirectory (v_entry ?a)" by (simp add: ex_visit_def isDirectory_def)
  have db: "isDirectory (v_entry ?b)" by (simp add: ex_visit_def isDirectory_def)
  have ra: "v_result ?a = Some (JBool False)" by (simp add: ex_visit_def)
  have rb: "\<exists>r. v_result ?b = Some r \<and> r \<noteq> JBool False" by (simp add: ex_visit_def)
  have ok: "\<exists>s'. walk 3 [''t''] Undefined (Function (logged ex_walker)) (ex_tree, (), []) = Ok () s'"
    by (simp add: ex_walk_pre)
  from walk_pre_order_false_skips [OF h1 h2 h3 a da] ra
  have c1: "\<not> (\<exists>b\<in>set ?log. strict_prefix [''p1''] (v_path b))"
    by (simp add: ex_visit_def)
  from walk_pre_order_false_skips [OF h1 h2 h3 b db] rb ok
  have c2: "\<exists>files. readdir ex_tree (join [''t''] [''p2'']) = Inr files \<and>
      \<not> (\<exists>f\<in>set files. \<not> (\<exists>b\<in>set ?log. v_path b = [''p2''] @ [name f] \<and> v_entry b = f))"
    by (simp add: ex_visit_def)
  from a b c1 c2 show ?thesis by blast
qed

section \<open>Exclusive copies of a directory\<close>

lemma ex_copy_facts:
  "valid ex_tree"
  "stat ex_tree [''t''] = Inr Directory"
  "copy 3 [''t''] [''e''] (Some 1) ex_tree =
     Ok () (ex_tree @
       [([''e''], Directory), ([''e'', ''f1''], File ''1''),
        ([''e'', ''p1''], Directory), ([''e'', ''p1'', ''p1f1''], File ''2''),
        ([''e'', ''p2''], Directory), ([''e'', ''p2'', ''p2f1''], File ''3'')])"
  "lookup ex_tree ([''t''] @ [''p1'', ''p1f1'']) = Some (File ''2'')"
  "stat ex_tree ([''t''] @ [''p1'', ''p1f1'']) = Inr (File ''2'')"
  by code_simp+

text \<open>
  C3. A directory-mode \<open>copy\<close> with the exclusive flag, started in a well-formed file
  system. No existing entry is overwritten: whatever entry the file system held at a
  path before the call, it holds the same entry there after it, whether the call
  resolved or was rejected. And when the call resolved, every file of the source tree,
  and every link in it that leads to a file, has its copy: a file with the same content
  at the mirrored path below \<open>dest\<close>. The files are duplicated by \<open>copyFile\<close> without
  \<open>COPYFILE_EXCL\<close>; it is the non-recursive \<open>mkdir\<close> of \<open>dest\<close> that rejects an existing
  destination, so that the walk writes only below a directory it has just made.
\<close>

theorem copy_exclusive_no_overwrite:
  assumes "flag_set fl COPY_EXCL" and "valid fs" and "stat fs src = Inr Directory"
  shows "(\<forall>p e. lookup fs p = Some e \<longrightarrow> lookup (final (copy n src dest fl fs)) p = Some e) \<and>
         (\<forall>fs'. copy n src dest fl fs = Ok () fs' \<longrightarrow>
            (\<forall>q c. stat fs (src @ q) = Inr (File c) \<longrightarrow> lookup fs' (dest @ q) = Some (File c)))"
proof (intro conjI allI impI)
  fix p e assume "lookup fs p = Some e"
  with assms show "lookup (final (copy n src dest fl fs)) p = Some e"
    by (rule copy_exclusive_keeps)
next
  fix fs' q c
  assume "copy n src dest fl fs = Ok () fs'" "stat fs (src @ q) = Inr (File c)"
  with assms show "lookup fs' (dest @ q) = Some (File c)"
    by (rule copy_exclusive_duplicates)
qed

theorem copy_exclusive_no_overwrite_witness:
  "flag_set (Some 1) COPY_EXCL \<and>
   valid [([''s''], Directory), ([''s'', ''f''], File ''new''),
          ([''d''], Directory), ([''d'', ''f''], File ''old'')] \<and>
   stat [([''s''], Directory), ([''s'', ''f''], File ''new''),
         ([''d''], Directory), ([''d'', ''f''], File ''old'')] [''s''] = Inr Directory \<and>
   lookup [([''s''], Directory), ([''s'', ''f''], File ''new''),
           ([''d''], Directory), ([''d'', ''f''], File ''old'')] [''d'', ''f''] = Some (File ''old'') \<and>
   lookup (final (copy 3 [''s''] [''d''] (Some 1)
       [([''s''], Directory), ([''s'', ''f''], File ''new''),
        ([''d''], Directory), ([''d'', ''f''], File ''old'')])) [''d'', ''f''] = Some (File ''old'') \<and>
   valid ex_tree \<and> stat ex_tree [''t''] = Inr Directory \<and>
   copy 3 [''t''] [''e''] (Some 1) ex_tree =
     Ok () (ex_tree @
       [([''e''], Directory), ([''e'', ''f1''], File ''1''),
        ([''e'', ''p1''], Directory), ([''e'', ''p1'', ''p1f1''], File ''2''),
        ([''e'', ''p2''], Directory), ([''e'', ''p2'', ''p2f1''], File ''3'')]) \<and>
   stat ex_tree ([''t''] @ [''p1'', ''p1f1'']) = Inr (File ''2'') \<and>
   lookup (ex_tree @
       [([''e''], Directory), ([''e'', ''f1''], File ''1''),
        ([''e'', ''p1''], Directory), ([''e'', ''p1'', ''p1f1''], File ''2''),
        ([''e'', ''p2''], Directory), ([''e'', ''p2'', ''p2f1''], File ''3'')])
     ([''e''] @ [''p1'', ''p1f1'']) = Some (File ''2'')"
proof -
  let ?fs = "[([''s''], Directory), ([''s'', ''f''], File ''new''),
              ([''d''], Directory), ([''d'', ''f''], File ''old'')]"
  have h1: "flag_set (Some 1) COPY_EXCL" by (simp add: COPY_EXCL_def)
  have h2: "valid ?fs" by (simp add: valid_def lookup_def dirname_def)
  have h3: "stat ?fs [''s''] = Inr Directory" by (simp add: stat_def lookup_def numeral_nat)
  have h4: "lookup ?fs [''d'', ''f''] = Some (File ''old'')" by (simp add: lookup_def)
  note A = copy_exclusive_no_overwrite [OF h1 h2 h3, of 3 "[''d'']"]
  note B = copy_exclusive_no_overwrite [OF h1 ex_copy_facts(1,2), of 3 "[''e'']"]
  from A [THEN conjunct1, rule_format, OF h4]
  have a: "lookup (final (copy 3 [''s''] [''d''] (Some 1) ?fs)) [''d'', ''f''] = Some (File ''old'')" .
  from B [THEN conjunct2, rule_format, OF ex_copy_facts(3,5)]
  have b: "lookup (ex_tree @
       [([''e''], Directory), ([''e'', ''f1''], File ''1''),
        ([''e'', ''p1''], Directory), ([''e'', ''p1'', ''p1f1''], File ''2''),
        ([''e'', ''p2''], Directory), ([''e'', ''p2'', ''p2f1''], File ''3'')])
     ([''e''] @ [''p1'', ''p1f1'']) = Some (File ''2'')" .
  show ?thesis
    by (intro conjI h1 h2 h3 h4 a b ex_copy_facts(1,2,3,5))
qed

section \<open>The order of the reconciliation pass\<close>

lemma ex_prune_facts:
  "valid ex_primary"
  "walk_impl 3 [] (with_log (prune_options [''d''])) (ex_primary, Some ex_recorded, []) =
     Ok () (final ex_prune_run)"
  "ex_prune_log ! 1 \<in> set (trace (final ex_prune_run))"
  "ex_prune_log ! 2 \<in> set (trace (final ex_prune_run))"
  "join [''d''] (v_path (ex_prune_log ! 1)) \<notin> set ex_recorded"
  "join [''d''] (v_path (ex_prune_log ! 2)) \<in> set ex_recorded"
  "isDirectory (v_entry (ex_prune_log ! 2))"
  "v_path (ex_prune_log ! 1) = [''old'']"
  "v_path (ex_prune_log ! 2) = [''p1'']"
  "lookup (v_after (ex_prune_log ! 1)) [''d'', ''old'', ''y''] = None"
  "copy_primary 3 [''t''] [''d''] (Some 2) ex_stale = Ok () (ex_primary, Some ex_recorded)"
  by code_simp+

text \<open>
  C4, as stated, fails: the second pass is not a post-order walk. In the sample mirror,
  after the primary pass, the walker of the second pass is called for \<open>f1\<close>, \<open>old\<close>,
  \<open>p1\<close>, \<open>p1/p1f1\<close>, \<open>p2\<close> and \<open>p2/p2f1\<close> in this order: for \<open>p1\<close> before
  \<open>p1/p1f1\<close>, and never for \<open>old/y\<close>, which goes with \<open>old\<close>.
\<close>

theorem prune_pass_not_post_order:
  "copy_primary 3 [''t''] [''d''] (Some 2) ex_stale = Ok () (ex_primary, Some ex_recorded) \<and>
   prune 3 [''d''] (ex_primary, Some ex_recorded) = unlogged ex_prune_run \<and>
   map v_path (trace (final ex_prune_run)) =
     [[''f1''], [''old''], [''p1''], [''p1'', ''p1f1''], [''p2''], [''p2'', ''p2f1'']] \<and>
   \<not> post_ordered (trace (final ex_prune_run))"
  by code_simp

text \<open>
  C4, amended. \<open>__copy\<close> and \<open>__symlink\<close> run the second pass after the primary one, as a
  walk over \<open>dest\<close> without the \<open>fileFirst\<close> flag, and the mirror ends where this walk
  ends. Take such a walk that started in a well-formed file system and resolved. It is a
  pre-order walk: no call is preceded by a call for a path strictly below its own. Each
  call for a path that is not recorded returns \<open>false\<close> and leaves nothing at that path or
  below it, and no call of the walk is for a path strictly below it. Each call for a
  recorded path returns \<open>undefined\<close>, and when its entry is a directory the walk goes
  into it: the directory is listed in the state the call left and every entry of the
  listing has its call.
\<close>

theorem prune_pass_pre_order:
  assumes "valid fs1"
    and "walk_impl n [] (with_log (prune_options dest)) (fs1, Some V, []) = Ok () s'"
    and "a \<in> set (trace s')"
  shows "(copy_primary n src dest fl fs = Ok () (fs1, Some V) \<longrightarrow>
            copy_impl n src dest fl fs = Ok () (fst s')) \<and>
         (symlink_primary n src dest fl fs = Ok () (fs1, Some V) \<longrightarrow>
            symlink_impl n src dest fl fs = Ok () (fst s')) \<and>
         (\<forall>i j. i < j \<longrightarrow> j < length (trace s') \<longrightarrow>
            \<not> strict_prefix (v_path (trace s' ! j)) (v_path (trace s' ! i))) \<and>
         (join dest (v_path a) \<notin> set V \<longrightarrow>
            v_result a = Some (JBool False) \<and>
            (\<forall>q. prefix (join dest (v_path a)) q \<longrightarrow> lookup (v_after a) q = None) \<and>
            (\<forall>b\<in>set (trace s'). \<not> strict_prefix (v_path a) (v_path b))) \<and>
         (join dest (v_path a) \<in> set V \<longrightarrow>
            v_result a = Some JUndefined \<and>
            (isDirectory (v_entry a) \<longrightarrow>
               (\<exists>files. readdir (v_after a) (join dest (v_path a)) = Inr files \<and>
                  (\<forall>f\<in>set files. \<exists>b\<in>set (trace s'). v_path b = v_path a @ [name f] \<and> v_entry b = f))))"
proof -
  let ?opts = "with_log (prune_options dest)"
  let ?s = "(fs1, Some V, []) :: (path list option \<times> visit list) world"
  let ?log = "trace s'"
  have fl: "js_and (flags ?opts) WALK_FILEFIRST = 0" by (simp add: prune_options_def)
  have w: "walker ?opts = Function (logged (prune_walker dest))" by (simp add: prune_options_def)
  have rt: "root ?opts = dest" by (simp add: prune_options_def)
  have tr: "trace ?s = []" by (simp add: trace_def)
  have fin: "final (walk_impl n [] ?opts ?s) = s'" using assms(2) by simp
  from pre_order_trace(1) [OF fl w, of n "[]" ?s] tr fin
  have shape: "under [] ?log" "pre_tree ?log" by auto
  from pre_order_sorted(1) [OF fl w, of n "[]" ?s] tr fin
  have "pre_ordered ?log" by auto
  then have ord: "\<forall>i j. i < j \<longrightarrow> j < length ?log \<longrightarrow>
            \<not> strict_prefix (v_path (?log ! j)) (v_path (?log ! i))"
    unfolding pre_ordered_def by (simp add: sorted_wrt_iff_nth_less)
  from pre_order_complete(1) [OF fl w, of n "[]" ?s] assms(2) tr rt
  have desc: "descents dest ?log" by auto
  from resolved_calls(1) [OF w, of n "[]" ?s] assms(2,3) tr
  have res: "v_result a \<noteq> None" by auto
  from prune_log_visits [OF assms(1), of "trace (final (walk_impl n [] ?opts ?s))" n dest V] fin assms(3) res
  have pv: "prune_visit dest V a" by simp
  have pr: "prune n dest (fs1, Some V) = unlogged (walk_impl n [] ?opts ?s)"
    by (simp add: prune_def logged_transparent(1) unlog_def)
  with assms(2) have pr': "prune n dest (fs1, Some V) = Ok () (fst s', fst (snd s'))"
    by (simp add: unlog_def)
  have stale: "v_result a = Some (JBool False) \<and>
       (\<forall>q. prefix (join dest (v_path a)) q \<longrightarrow> lookup (v_after a) q = None) \<and>
       (\<forall>b\<in>set ?log. \<not> strict_prefix (v_path a) (v_path b))"
    if nin: "join dest (v_path a) \<notin> set V"
  proof (intro conjI allI impI ballI)
    from pv nin show r: "v_result a = Some (JBool False)" by (simp add: prune_visit_def)
    from pv nin have gone: "\<forall>e\<in>set (v_after a). \<not> prefix (join dest (v_path a)) (fst e)"
      by (simp add: prune_visit_def list_all_iff below_def)
    from shape(1) assms(3) have ne: "v_path a \<noteq> []" unfolding under_def by auto
    show "lookup (v_after a) q = None" if p: "prefix (join dest (v_path a)) q" for q
    proof (rule ccontr)
      assume "lookup (v_after a) q \<noteq> None"
      moreover from p ne have "q \<noteq> []" by (auto simp: join_def)
      ultimately obtain x where "(q, x) \<in> set (v_after a)" using lookup_in_set by blast
      with gone p show False by force
    qed
    show "\<not> strict_prefix (v_path a) (v_path b)" if "b \<in> set ?log" for b
    proof
      assume "strict_prefix (v_path a) (v_path b)"
      with shape(2) assms(3) that have "descended a" unfolding pre_tree_def by blast
      with r show False by (simp add: descended_def)
    qed
  qed
  have live: "v_result a = Some JUndefined \<and>
      (isDirectory (v_entry a) \<longrightarrow>
         (\<exists>files. readdir (v_after a) (join dest (v_path a)) = Inr files \<and>
            (\<forall>f\<in>set files. \<exists>b\<in>set ?log. v_path b = v_path a @ [name f] \<and> v_entry b = f)))"
    if "join dest (v_path a) \<in> set V"
  proof (intro conjI impI)
    from pv that show r: "v_result a = Some JUndefined" by (simp add: prune_visit_def)
    assume "isDirectory (v_entry a)"
    with r have "descended a" by (simp add: descended_def)
    with desc assms(3)
    show "\<exists>files. readdir (v_after a) (join dest (v_path a)) = Inr files \<and>
            (\<forall>f\<in>set files. \<exists>b\<in>set ?log. v_path b = v_path a @ [name f] \<and> v_entry b = f)"
      unfolding descents_def listed_def by blast
  qed
  have c: "copy_impl n src dest fl fs = Ok () (fst s')"
    if "copy_primary n src dest fl fs = Ok () (fs1, Some V)"
    using that pr' by (simp add: copy_impl_def)
  have s: "symlink_impl n src dest fl fs = Ok () (fst s')"
    if "symlink_primary n src dest fl fs = Ok () (fs1, Some V)"
    using that pr' by (simp add: symlink_impl_def)
  from c s ord stale live show ?thesis by blast
qed

theorem prune_pass_pre_order_witness:
  "valid ex_primary \<and>
   walk_impl 3 [] (with_log (prune_options [''d''])) (ex_primary, Some ex_recorded, []) =
     Ok () (final ex_prune_run) \<and>
   copy_primary 3 [''t''] [''d''] (Some 2) ex_stale = Ok () (ex_primary, Some ex_recorded) \<and>
   copy_impl 3 [''t''] [''d''] (Some 2) ex_stale = Ok () (fst (final ex_prune_run)) \<and>
   ex_prune_log ! 1 \<in> set (trace (final ex_prune_run)) \<and>
   join [''d''] (v_path (ex_prune_log ! 1)) \<notin> set ex_recorded \<and>
   v_path (ex_prune_log ! 1) = [''old''] \<and>
   v_result (ex_prune_log ! 1) = Some (JBool False) \<and>
   lookup (v_after (ex_prune_log ! 1)) [''d'', ''old'', ''y''] = None \<and>
   \<not> (\<exists>b\<in>set (trace (final ex_prune_run)). strict_prefix (v_path (ex_prune_log ! 1)) (v_path b)) \<and>
   ex_prune_log ! 2 \<in> set (trace (final ex_prune_run)) \<and>
   join [''d''] (v_path (ex_prune_log ! 2)) \<in> set ex_recorded \<and>
   v_path (ex_prune_log ! 2) = [''p1''] \<and>
   isDirectory (v_entry (ex_prune_log ! 2)) \<and>
   v_result (ex_prune_log ! 2) = Some JUndefined \<and>
   (\<exists>files. readdir (v_after (ex_prune_log ! 2)) (join [''d''] (v_path (ex_prune_log ! 2))) = Inr files \<and>
      \<not> (\<exists>f\<in>set files. \<not> (\<exists>b\<in>set (trace (final ex_prune_run)).
            v_path b = v_path (ex_prune_log ! 2) @ [name f] \<and> v_entry b = f)))"
proof -
  note T1 = prune_pass_pre_order [OF ex_prune_facts(1,2,3), of "[''t'']" "Some 2" ex_stale]
  note T2 = prune_pass_pre_order [OF ex_prune_facts(1,2,4), of "[''t'']" "Some 2" ex_stale]
  from T1 ex_prune_facts(11)
  have cp: "copy_impl 3 [''t''] [''d''] (Some 2) ex_stale = Ok () (fst (final ex_prune_run))"
    by blast
  from T1 ex_prune_facts(5)
  have a: "v_result (ex_prune_log ! 1) = Some (JBool False)"
    and b: "\<not> (\<exists>b\<in>set (trace (final ex_prune_run)). strict_prefix (v_path (ex_prune_log ! 1)) (v_path b))"
    by blast+
  from T2 ex_prune_facts(6,7)
  have c: "v_result (ex_prune_log ! 2) = Some JUndefined"
    and d: "\<exists>files. readdir (v_after (ex_prune_log ! 2)) (join [''d''] (v_path (ex_prune_log ! 2))) = Inr files \<and>
      \<not> (\<exists>f\<in>set files. \<not> (\<exists>b\<in>set (trace (final ex_prune_run)).
            v_path b = v_path (ex_prune_log ! 2) @ [name f] \<and> v_entry b = f))"
    by blast+
  show ?thesis
    by (intro conjI ex_prune_facts cp a b c d)
qed

section \<open>A second symlink of a file\<close>

text \<open>
  C5. A second \<open>symlink(src, dest)\<close>, without the exclusive flag, on a source that is not
  a directory, when \<open>dest\<close> is already a link whose target is the resolved source: the
  file system after the call is the one before it, and the call resolves whenever
  \<open>dest\<close> can be followed.
\<close>

theorem symlink_twice_no_mutation:
  assumes "stat fs src = Inr srcStat" and "srcStat \<noteq> Directory"
    and "\<not> flag_set fl SYMLINK_EXCL"
    and "lookup fs dest = Some (Symlink (resolve src))"
    and "valid fs"
  shows "final (symlink n src dest fl fs) = fs \<and>
         (existsSync fs dest \<longrightarrow> symlink n src dest fl fs = Ok () fs)"
proof -
  from assms(4,5) have mk: "mkdir (dirname dest) True fs = Ok () fs"
    by (simp add: mkdir_parent_existing)
  have sl: "symlink n src dest fl fs = symlinkFile_impl src dest fl fs"
    using assms(1,2,3) mk by (simp add: symlink_def)
  have ex: "symlinkFile_impl src dest fl fs = Ok () fs" if "existsSync fs dest"
    using that assms(3,4) by (simp add: symlinkFile_impl_def lstat_def readlink_def)
  have nex: "symlinkFile_impl src dest fl fs = Err EEXIST fs" if "\<not> existsSync fs dest"
    using that assms(3,4) by (simp add: symlinkFile_impl_def symlinkFile_def)
  show ?thesis
    using sl ex nex by (cases "existsSync fs dest") simp_all
qed

theorem symlink_twice_no_mutation_witness:
  "stat [([''s''], File ''a''), ([''d''], Symlink [''s''])] [''s''] = Inr (File ''a'') \<and>
   File ''a'' \<noteq> Directory \<and> \<not> flag_set None SYMLINK_EXCL \<and>
   lookup [([''s''], File ''a''), ([''d''], Symlink [''s''])] [''d''] = Some (Symlink (resolve [''s''])) \<and>
   valid [([''s''], File ''a''), ([''d''], Symlink [''s''])] \<and>
   existsSync [([''s''], File ''a''), ([''d''], Symlink [''s''])] [''d''] \<and>
   symlink 1 [''s''] [''d''] None [([''s''], File ''a''), ([''d''], Symlink [''s''])]
     = Ok () [([''s''], File ''a''), ([''d''], Symlink [''s''])]"
proof -
  let ?fs = "[([''s''], File ''a''), ([''d''], Symlink [''s''])]"
  have h1: "stat ?fs [''s''] = Inr (File ''a'')"
    by (simp add: stat_def lookup_def numeral_nat)
  have h2: "File ''a'' \<noteq> Directory" by simp
  have h3: "\<not> flag_set None SYMLINK_EXCL" by simp
  have h4: "lookup ?fs [''d''] = Some (Symlink (resolve [''s'']))"
    by (simp add: lookup_def resolve_def)
  have h5: "valid ?fs" by (simp add: valid_def lookup_def dirname_def)
  have h6: "existsSync ?fs [''d'']"
    by (simp add: existsSync_def stat_def lookup_def numeral_nat)
  from symlink_twice_no_mutation [OF h1 h2 h3 h4 h5, of 1] h1 h2 h3 h4 h5 h6
  show ?thesis by simp
qed

section \<open>Post-order walks\<close>

lemma ex_walk_post:
  "walk 3 [''t''] (Number 16) (Function (logged ex_walker)) (ex_tree, (), []) =
     Ok () (ex_tree, (),
       [ex_visit [''f1''] ''f1'' KFile JUndefined,
        ex_visit [''p1'', ''p1f1''] ''p1f1'' KFile JUndefined,
        ex_visit [''p1''] ''p1'' KDirectory (JBool False),
        ex_visit [''p2'', ''p2f1''] ''p2f1'' KFile JUndefined,
        ex_visit [''p2''] ''p2'' KDirectory JUndefined])"
  by code_simp

text \<open>
  C6. In a walk with the \<open>fileFirst\<close> flag no call of the walker is followed by a call
  for a path strictly below its own. Each call for a directory entry comes right after
  the calls made below that directory: the calls before it end with a run of calls for
  paths strictly below it, the directory was listed in the file system as it was before
  that run, and every entry of the listing has its call in the run. This holds for the
  calls made, whether the walk resolved or not. What the walker returns is not looked
  at: the walk with the returned values replaced by any others is the same walk.
\<close>

theorem walk_file_first_order:
  assumes "js_and fl WALK_FILEFIRST \<noteq> 0"
    and "log = trace (final (walk n rt fl (Function (logged w)) (fs, u, [])))"
  shows "(\<forall>i j. i < j \<longrightarrow> j < length log \<longrightarrow>
            \<not> strict_prefix (v_path (log ! i)) (v_path (log ! j))) \<and>
         (\<forall>us a zs. log = us @ a # zs \<longrightarrow> isDirectory (v_entry a) \<longrightarrow>
            (\<exists>ys vs files. us = ys @ vs \<and>
               (\<forall>b\<in>set vs. strict_prefix (v_path a) (v_path b)) \<and>
               readdir (fs_after fs ys) (join rt (v_path a)) = Inr files \<and>
               (\<forall>f\<in>set files. \<exists>b\<in>set vs. v_path b = v_path a @ [name f] \<and> v_entry b = f))) \<and>
         walk n rt fl (Function (returning g w')) s = walk n rt fl (Function w') s"
proof -
  let ?opts = "\<lparr>root = rt, flags = fl, walker = Function (logged w)\<rparr>"
  let ?s = "(fs, u, []::visit list)"
  from assms(1) have nf: "\<not> is_function fl" by (cases fl) auto
  have wk: "walk n rt fl (Function (logged w)) ?s = walk_impl n [] ?opts ?s"
    using nf by (simp add: walk_def)
  have fl: "js_and (flags ?opts) WALK_FILEFIRST \<noteq> 0" using assms(1) by simp
  have w: "walker ?opts = Function (logged w)" by simp
  have tr: "trace ?s = []" by (simp add: trace_def)
  from post_order_trace(1) [OF fl w, of n "[]" ?s] tr wk assms(2)
  have "post_ordered log" by auto
  then have ord: "\<forall>i j. i < j \<longrightarrow> j < length log \<longrightarrow>
            \<not> strict_prefix (v_path (log ! i)) (v_path (log ! j))"
    unfolding post_ordered_def by (simp add: sorted_wrt_iff_nth_less)
  from post_order_complete(1) [OF fl w, of n "[]" ?s] tr wk assms(2)
  have "post_descents rt fs log" by auto
  then have desc: "\<forall>us a zs. log = us @ a # zs \<longrightarrow> isDirectory (v_entry a) \<longrightarrow>
            (\<exists>ys vs files. us = ys @ vs \<and>
               (\<forall>b\<in>set vs. strict_prefix (v_path a) (v_path b)) \<and>
               readdir (fs_after fs ys) (join rt (v_path a)) = Inr files \<and>
               (\<forall>f\<in>set files. \<exists>b\<in>set vs. v_path b = v_path a @ [name f] \<and> v_entry b = f))"
    unfolding post_descents_def under_def listed_def .
  have "walk n rt fl (Function (returning g w')) s = walk n rt fl (Function w') s"
    using assms(1) post_order_result_unused(1) [OF assms(1), of n "[]" rt g w' s]
    by (cases fl) (simp_all add: walk_def)
  with ord desc show ?thesis by blast
qed

theorem walk_file_first_order_witness:
  "js_and (Number 16 :: (unit \<times> visit list) jsarg) WALK_FILEFIRST \<noteq> 0 \<and>
   trace (final (walk 3 [''t''] (Number 16) (Function (logged ex_walker)) (ex_tree, (), []))) =
     [ex_visit [''f1''] ''f1'' KFile JUndefined,
      ex_visit [''p1'', ''p1f1''] ''p1f1'' KFile JUndefined] @
     ex_visit [''p1''] ''p1'' KDirectory (JBool False) #
     [ex_visit [''p2'', ''p2f1''] ''p2f1'' KFile JUndefined,
      ex_visit [''p2''] ''p2'' KDirectory JUndefined] \<and>
   isDirectory (v_entry (ex_visit [''p1''] ''p1'' KDirectory (JBool False))) \<and>
   (\<exists>ys vs files.
      [ex_visit [''f1''] ''f1'' KFile JUndefined,
       ex_visit [''p1'', ''p1f1''] ''p1f1'' KFile JUndefined] = ys @ vs \<and>
      \<not> (\<exists>b\<in>set vs. \<not> strict_prefix [''p1''] (v_path b)) \<and>
      readdir (fs_after ex_tree ys) (join [''t''] [''p1'']) = Inr files \<and>
      \<not> (\<exists>f\<in>set files. \<not> (\<exists>b\<in>set vs. v_path b = [''p1''] @ [name f] \<and> v_entry b = f))) \<and>
   \<not> strict_prefix
       (v_path (trace (final (walk 3 [''t''] (Number 16) (Function (logged ex_walker)) (ex_tree, (), []))) ! 2))
       (v_path (trace (final (walk 3 [''t''] (Number 16) (Function (logged ex_walker)) (ex_tree, (), []))) ! 3)) \<and>
   walk 3 [''t''] (Number 16) (Function (returning (\<lambda>v. JBool False) ex_walker)) (ex_tree, (), [] :: visit list) =
   walk 3 [''t''] (Number 16) (Function ex_walker) (ex_tree, (), [])"
proof -
  let ?log = "trace (final (walk 3 [''t''] (Number 16) (Function (logged ex_walker)) (ex_tree, (), [])))"
  let ?us = "[ex_visit [''f1''] ''f1'' KFile JUndefined,
      ex_visit [''p1'', ''p1f1''] ''p1f1'' KFile JUndefined]"
  let ?a = "ex_visit [''p1''] ''p1'' KDirectory (JBool False)"
  let ?zs = "[ex_visit [''p2'', ''p2f1''] ''p2f1'' KFile JUndefined,
      ex_visit [''p2''] ''p2'' KDirectory JUndefined]"
  have h1: "js_and (Number 16 :: (unit \<times> visit list) jsarg) WALK_FILEFIRST \<noteq> 0"
    by (simp add: WALK_FILEFIRST_def)
  have h2: "?log = ?log" by simp
  have split: "?log = ?us @ ?a # ?zs" by (simp add: ex_walk_post trace_def)
  have dir: "isDirectory (v_entry ?a)" by (simp add: ex_visit_def isDirectory_def)
  have len: "(2::nat) < 3 \<and> 3 < length ?log" by (simp add: ex_walk_post trace_def)
  note T = walk_file_first_order [OF h1 h2, of "\<lambda>v. JBool False" ex_walker "(ex_tree, (), [])"]
  from T [THEN conjunct1, rule_format, of 2 3] len
  have ord: "\<not> strict_prefix (v_path (?log ! 2)) (v_path (?log ! 3))" by simp
  from T [THEN conjunct2, THEN conjunct1, rule_format, OF split dir]
  obtain ys vs files where d: "?us = ys @ vs"
    "\<forall>b\<in>set vs. strict_prefix (v_path ?a) (v_path b)"
    "readdir (fs_after ex_tree ys) (join [''t''] (v_path ?a)) = Inr files"
    "\<forall>f\<in>set files. \<exists>b\<in>set vs. v_path b = v_path ?a @ [name f] \<and> v_entry b = f"
    by blast
  have pa: "v_path ?a = [''p1'']" by (simp add: ex_visit_def)
  from d have desc: "\<exists>ys vs files. ?us = ys @ vs \<and>
      \<not> (\<exists>b\<in>set vs. \<not> strict_prefix [''p1''] (v_path b)) \<and>
      readdir (fs_after ex_tree ys) (join [''t''] [''p1'']) = Inr files \<and>
      \<not> (\<exists>f\<in>set files. \<not> (\<exists>b\<in>set vs. v_path b = [''p1''] @ [name f] \<and> v_entry b = f))"
    unfolding pa by blast
  from T have eq: "walk 3 [''t''] (Number 16) (Function (returning (\<lambda>v. JBool False) ex_walker)) (ex_tree, (), [] :: visit list) =
   walk 3 [''t''] (Number 16) (Function ex_walker) (ex_tree, (), [])" by (rule conjunct2 [THEN conjunct2])
  show ?thesis by (intro conjI h1 split dir desc ord eq)
qed

section \<open>Single-file symlink\<close>

text \<open>
  C7. \<open>symlink(src, dest, flags)\<close> on a source that is not a directory. With the
  exclusive flag the call is the bare link creation, with no parent made and no look at
  \<open>dest\<close>, so an entry at \<open>dest\<close> rejects it with \<open>EEXIST\<close>. Without the flag and
  with nothing at \<open>dest\<close> it is the link creation after the parent directories are made.
  Where it resolves, \<open>dest\<close> is a link to the resolved source.
\<close>

theorem symlink_file_create:
  assumes "stat fs src = Inr srcStat" and "srcStat \<noteq> Directory"
  shows "(flag_set fl SYMLINK_EXCL \<longrightarrow>
            symlink n src dest fl fs = symlinkFile (resolve src) dest fs \<and>
            (lookup fs dest \<noteq> None \<longrightarrow> symlink n src dest fl fs = Err EEXIST fs)) \<and>
         (\<not> flag_set fl SYMLINK_EXCL \<longrightarrow> lookup fs dest = None \<longrightarrow>
            symlink n src dest fl fs =
              bind (mkdir (dirname dest) True fs) (\<lambda>u fs1. symlinkFile (resolve src) dest fs1)) \<and>
         (flag_set fl SYMLINK_EXCL \<or> lookup fs dest = None \<longrightarrow>
            (\<forall>fs'. symlink n src dest fl fs = Ok () fs' \<longrightarrow>
               lookup fs' dest = Some (Symlink (resolve src))))"
proof -
  have excl: "symlink n src dest fl fs = symlinkFile (resolve src) dest fs"
    if "flag_set fl SYMLINK_EXCL"
    using that assms by (simp add: symlink_def symlinkFile_impl_def)
  have coll: "symlink n src dest fl fs = Err EEXIST fs"
    if "flag_set fl SYMLINK_EXCL" "lookup fs dest \<noteq> None"
    using that excl by (auto simp: symlinkFile_def)
  have fresh: "symlink n src dest fl fs =
      bind (mkdir (dirname dest) True fs) (\<lambda>u fs1. symlinkFile (resolve src) dest fs1)"
    if ne: "\<not> flag_set fl SYMLINK_EXCL" and ab: "lookup fs dest = None"
  proof (cases "mkdir (dirname dest) True fs")
    case (Ok u fs1)
    from ab have "dest \<noteq> []" by (auto simp: lookup_def)
    then have "\<not> prefix dest ([] @ butlast dest)" by (simp add: not_prefix_butlast)
    then have "lookup (final (mkdirp [] (butlast dest) fs)) dest = lookup fs dest"
      by (rule mkdirp_frame)
    with Ok ab have "lookup fs1 dest = None" by (simp add: mkdir_def dirname_def)
    then have "\<not> existsSync fs1 dest" by (rule existsSync_absent)
    with Ok ne assms show ?thesis by (simp add: symlink_def symlinkFile_impl_def)
  next
    case (Err e fs1)
    with ne assms show ?thesis by (simp add: symlink_def)
  qed
  have made: "lookup fs' dest = Some (Symlink (resolve src))"
    if "flag_set fl SYMLINK_EXCL \<or> lookup fs dest = None" "symlink n src dest fl fs = Ok () fs'" for fs'
  proof (cases "flag_set fl SYMLINK_EXCL")
    case True
    with that excl show ?thesis by (auto dest: symlinkFile_Ok)
  next
    case False
    with that fresh have "bind (mkdir (dirname dest) True fs) (\<lambda>u fs1. symlinkFile (resolve src) dest fs1) = Ok () fs'"
      by auto
    then show ?thesis by (cases "mkdir (dirname dest) True fs") (auto dest: symlinkFile_Ok)
  qed
  from excl coll fresh made show ?thesis by blast
qed

theorem symlink_file_create_witness:
  "stat [([''s''], File ''a''), ([''d''], File ''b'')] [''s''] = Inr (File ''a'') \<and> File ''a'' \<noteq> Directory \<and>
   flag_set (Some 4) SYMLINK_EXCL \<and> lookup [([''s''], File ''a''), ([''d''], File ''b'')] [''d''] \<noteq> None \<and>
   symlink 1 [''s''] [''d''] (Some 4) [([''s''], File ''a''), ([''d''], File ''b'')]
     = Err EEXIST [([''s''], File ''a''), ([''d''], File ''b'')] \<and>
   \<not> flag_set None SYMLINK_EXCL \<and> lookup [([''s''], File ''a''), ([''d''], File ''b'')] [''e''] = None \<and>
   symlink 1 [''s''] [''e''] None [([''s''], File ''a''), ([''d''], File ''b'')]
     = Ok () [([''s''], File ''a''), ([''d''], File ''b''), ([''e''], Symlink [''s''])] \<and>
   lookup [([''s''], File ''a''), ([''d''], File ''b''), ([''e''], Symlink [''s''])] [''e''] = Some (Symlink (resolve [''s'']))"
proof -
  have h1: "stat [([''s''], File ''a''), ([''d''], File ''b'')] [''s''] = Inr (File ''a'')"
    by (simp add: stat_def lookup_def numeral_nat)
  have h2: "File ''a'' \<noteq> Directory" by simp
  show ?thesis
    using symlink_file_create [OF h1 h2, of "Some 4" 1 "[''d'']"]
          symlink_file_create [OF h1 h2, of None 1 "[''e'']"]
    by (simp add: h1 lookup_def SYMLINK_EXCL_def mkdir_def dirname_def symlinkFile_def create_def put_def resolve_def)
qed

section \<open>Removal\<close>




section \<open>The argument forms of walk\<close>

text \<open>
  C9. \<open>walk(root, visitor)\<close> with the function in the flags position and no third
  argument runs \<open>__walk\<close> with that function as the walker and no flags; it is the same
  walk as \<open>walk(root, undefined, visitor)\<close> and as \<open>walk(root, 0, visitor)\<close>.
\<close>

theorem walk_two_argument_form:
  "walk n rt (Function w) Undefined s =
     walk_impl n [] \<lparr>root = rt, flags = Undefined, walker = Function w\<rparr> s \<and>
   walk n rt (Function w) Undefined s = walk n rt Undefined (Function w) s \<and>
   walk n rt (Function w) Undefined s = walk n rt (Number 0) (Function w) s"
  using walk_flags_test_only(1) [of "\<lparr>root = rt, flags = Undefined, walker = Function w\<rparr>"
      "\<lparr>root = rt, flags = Number 0, walker = Function w\<rparr>" n "[]" s]
  by (simp add: walk_def)

section \<open>Directory-mode symlink and links that dangle\<close>

text \<open>
  C10. In directory mode \<open>__symlinkFile\<close> is called without the flags, so a link is
  replaced rather than rejected. The replacement is guarded by \<open>existsSync\<close>, which follows
  links: where the nested destination is a link whose target is gone, the guard reports
  that nothing exists, the bare link creation runs and is rejected with \<open>EEXIST\<close>.
  The source tree \<open>src/f\<close> is mirrored into \<open>dest\<close>, where \<open>dest/f\<close> is a link to the
  missing \<open>gone\<close>.
\<close>

theorem symlink_directory_dangling_link:
  "symlink 2 [''src''] [''dest''] None
     [([''src''], Directory), ([''src'', ''f''], File ''new''),
      ([''dest''], Directory), ([''dest'', ''f''], Symlink [''gone''])]
   = Err EEXIST
     [([''src''], Directory), ([''src'', ''f''], File ''new''),
      ([''dest''], Directory), ([''dest'', ''f''], Symlink [''gone''])]"
  by code_simp

end
